theory Spec2Isabelle
  imports Main "HOL-Library.Sublist"
begin

section \<open>Kruskal's algorithm over a disjoint-set union: the program\<close>

text \<open>
  The source is one Python file, \<^verbatim>\<open>kruskalalgorithm.py\<close>: the class
  \<^verbatim>\<open>GraphEdge\<close>, the class \<^verbatim>\<open>DisjointSetUnion\<close> (two dictionaries,
  \<^verbatim>\<open>parent\<close> and \<^verbatim>\<open>rank\<close>, with the methods \<^verbatim>\<open>find\<close> and
  \<^verbatim>\<open>union\<close>) and the function \<^verbatim>\<open>kruskal_mst\<close>.

  Vertices are any values with equality (\<open>'v\<close>); weights are Python integers
  (\<open>int\<close>). A dictionary is a map \<open>'v \<rightharpoonup> 'a\<close>; reading a missing key raises
  \<^verbatim>\<open>KeyError\<close>. The Python set \<^verbatim>\<open>vertices\<close> is given as the list of its
  elements in the order in which the set is iterated; every statement below holds for
  every such order and speaks about \<open>set vertices\<close>.

  Not modelled: \<^verbatim>\<open>GraphEdge.__repr__\<close>, the printing of the demonstration block,
  and Python's limit on the depth of recursion.
\<close>

subsection \<open>Data\<close>

record 'v GraphEdge =
  weight :: int
  start :: 'v
  end' :: 'v

record 'v DisjointSetUnion =
  parent :: "'v \<rightharpoonup> 'v"
  rank :: "'v \<rightharpoonup> nat"

datatype 'v error = KeyError 'v

text \<open>
  A call either does not return (\<open>None\<close>), raises (\<open>Some (Inl (e, dsu))\<close>) or
  returns a value (\<open>Some (Inr x)\<close>). The DSU is a mutable object, so what a call has
  done to it before it raises stays done: a raise carries, next to the exception, the
  DSU as the call left it.
\<close>

type_synonym ('v, 'a) result = "(('v error \<times> 'v DisjointSetUnion) + 'a) option"

definition return :: "'a \<Rightarrow> ('v, 'a) result" where
  "return x = Some (Inr x)"

definition raise :: "'v error \<Rightarrow> 'v DisjointSetUnion \<Rightarrow> ('v, 'a) result" where
  "raise e dsu = Some (Inl (e, dsu))"

definition bind_res :: "('v, 'a) result \<Rightarrow> ('a \<Rightarrow> ('v, 'b) result) \<Rightarrow> ('v, 'b) result" where
  "bind_res m f =
     (case m of
        None \<Rightarrow> None
      | Some (Inl failure) \<Rightarrow> Some (Inl failure)
      | Some (Inr x) \<Rightarrow> f x)"

text \<open>\<open>returns m x\<close>: the call \<open>m\<close> returns the value \<open>x\<close>.\<close>

definition returns :: "('v, 'a) result \<Rightarrow> 'a \<Rightarrow> bool" where
  "returns m x = (case m of Some (Inr y) \<Rightarrow> y = x | _ \<Rightarrow> False)"

text \<open>Subscripting a dictionary of the object \<open>dsu\<close>: \<^verbatim>\<open>m[k]\<close>.\<close>

definition subscript :: "'v DisjointSetUnion \<Rightarrow> ('v \<rightharpoonup> 'a) \<Rightarrow> 'v \<Rightarrow> ('v, 'a) result" where
  "subscript dsu m k = (case m k of None \<Rightarrow> raise (KeyError k) dsu | Some x \<Rightarrow> return x)"

subsection \<open>DisjointSetUnion\<close>

text \<open>
  \<^verbatim>\<open>__init__\<close>: the two dictionary comprehensions over \<^verbatim>\<open>vertices\<close>. Nothing
  in it can raise.
\<close>

definition DisjointSetUnion_init :: "'v list \<Rightarrow> ('v, 'v DisjointSetUnion) result" where
  "DisjointSetUnion_init vertices =
     return \<lparr>parent = map_of (map (\<lambda>vertex. (vertex, vertex)) vertices),
             rank = map_of (map (\<lambda>vertex. (vertex, 0)) vertices)\<rparr>"

text \<open>
  \<^verbatim>\<open>find\<close>: recursive, with path compression. The recursion follows the parent links,
  which need not end in an arbitrary dictionary, so the function is partial: \<open>None\<close>
  is a call that does not return. The assignment
  \<^verbatim>\<open>self.parent[vertex] = self.find(self.parent[vertex])\<close> is made in the state the
  recursive call leaves behind, and the value returned is the one just stored. When
  the recursive call raises, the assignment is not made.
\<close>

partial_function (option) find_dsu ::
  "'v DisjointSetUnion \<Rightarrow> 'v \<Rightarrow>
   ('v error \<times> 'v DisjointSetUnion + 'v \<times> 'v DisjointSetUnion) option" where
  "find_dsu dsu vertex =
     (case parent dsu vertex of
        None \<Rightarrow> Some (Inl (KeyError vertex, dsu))
      | Some p \<Rightarrow>
          if p \<noteq> vertex then
            Option.bind (find_dsu dsu p) (\<lambda>res.
              case res of
                Inl failure \<Rightarrow> Some (Inl failure)
              | Inr (root, dsu') \<Rightarrow>
                  Some (Inr (root, dsu'\<lparr>parent := (parent dsu')(vertex \<mapsto> root)\<rparr>)))
          else Some (Inr (p, dsu)))"

declare find_dsu.simps [code]

text \<open>\<^verbatim>\<open>union\<close>: union by rank. It returns nothing; the model returns the new state.\<close>

definition union_dsu ::
  "'v DisjointSetUnion \<Rightarrow> 'v \<Rightarrow> 'v \<Rightarrow> ('v, 'v DisjointSetUnion) result" where
  "union_dsu dsu vertex1 vertex2 =
     bind_res (find_dsu dsu vertex1) (\<lambda>(root1, dsu1).
     bind_res (find_dsu dsu1 vertex2) (\<lambda>(root2, dsu2).
       if root1 \<noteq> root2 then
         bind_res (subscript dsu2 (rank dsu2) root1) (\<lambda>rank1.
         bind_res (subscript dsu2 (rank dsu2) root2) (\<lambda>rank2.
           if rank1 > rank2 then
             return (dsu2\<lparr>parent := (parent dsu2)(root2 \<mapsto> root1)\<rparr>)
           else if rank1 < rank2 then
             return (dsu2\<lparr>parent := (parent dsu2)(root1 \<mapsto> root2)\<rparr>)
           else
             return (dsu2\<lparr>parent := (parent dsu2)(root2 \<mapsto> root1),
                          rank := (rank dsu2)(root1 \<mapsto> rank1 + 1)\<rparr>)))
       else return dsu2))"

subsection \<open>kruskal\_mst\<close>

text \<open>
  The body of the loop over the sorted edges. The state is the DSU, the list
  \<^verbatim>\<open>mst_result\<close> and \<^verbatim>\<open>total_weight\<close>. The condition calls \<^verbatim>\<open>find\<close> on
  the start, then on the end; both calls compress paths.
\<close>

definition kruskal_step ::
  "'v DisjointSetUnion \<times> 'v GraphEdge list \<times> int \<Rightarrow> 'v GraphEdge \<Rightarrow>
   ('v, 'v DisjointSetUnion \<times> 'v GraphEdge list \<times> int) result" where
  "kruskal_step st edge =
     (case st of (dsu, mst_result, total_weight) \<Rightarrow>
        bind_res (find_dsu dsu (start edge)) (\<lambda>(root1, dsu1).
        bind_res (find_dsu dsu1 (end' edge)) (\<lambda>(root2, dsu2).
          if root1 \<noteq> root2 then
            bind_res (union_dsu dsu2 (start edge) (end' edge)) (\<lambda>dsu3.
              return (dsu3, mst_result @ [edge], total_weight + weight edge))
          else return (dsu2, mst_result, total_weight))))"

fun kruskal_loop ::
  "'v DisjointSetUnion \<times> 'v GraphEdge list \<times> int \<Rightarrow> 'v GraphEdge list \<Rightarrow>
   ('v, 'v DisjointSetUnion \<times> 'v GraphEdge list \<times> int) result" where
  "kruskal_loop st [] = return st"
| "kruskal_loop st (edge # edges) =
     bind_res (kruskal_step st edge) (\<lambda>st'. kruskal_loop st' edges)"

text \<open>
  The generator \<^verbatim>\<open>dsu.find(vertex) for vertex in vertices\<close>: one call of
  \<^verbatim>\<open>find\<close> per vertex, in iteration order, each in the state the previous one left.
\<close>

fun find_all ::
  "'v DisjointSetUnion \<Rightarrow> 'v list \<Rightarrow> ('v, 'v list \<times> 'v DisjointSetUnion) result" where
  "find_all dsu [] = return ([], dsu)"
| "find_all dsu (vertex # vertices) =
     bind_res (find_dsu dsu vertex) (\<lambda>(root, dsu1).
     bind_res (find_all dsu1 vertices) (\<lambda>(roots, dsu2).
       return (root # roots, dsu2)))"

text \<open>Python's \<^verbatim>\<open>str\<close> of a non-negative integer, for the f-string.\<close>

fun str_nat :: "nat \<Rightarrow> string" where
  "str_nat n =
     (if n < 10 then [''0123456789'' ! n]
      else str_nat (n div 10) @ [''0123456789'' ! (n mod 10)])"

declare str_nat.simps [simp del]

text \<open>
  \<^verbatim>\<open>kruskal_mst\<close>. The value returned is the pair
  \<^verbatim>\<open>(mst_result, total_weight)\<close>; what the function tells about empty input and
  about connectivity it prints. The model returns the pair together with the
  list of the arguments of the \<^verbatim>\<open>print\<close> calls, in order.
  \<^verbatim>\<open>sorted\<close> is stable, and so is \<open>sort_key\<close>; a list has one stable sorting.
\<close>

definition kruskal_mst ::
  "'v list \<Rightarrow> 'v GraphEdge list \<Rightarrow> ('v, ('v GraphEdge list \<times> int) \<times> string list) result" where
  "kruskal_mst vertices edges =
     (if vertices = [] \<or> edges = [] then
        return (([], 0), [''Error: The graph must have at least one vertex and one edge.''])
      else
        bind_res (DisjointSetUnion_init vertices) (\<lambda>dsu.
        bind_res (kruskal_loop (dsu, [], 0) (sort_key weight edges))
          (\<lambda>(dsu', mst_result, total_weight).
        bind_res (find_all dsu' vertices) (\<lambda>(roots, dsu'').
          let connected_components = set roots in
          return ((mst_result, total_weight),
            if card connected_components > 1 then
              [CHR 0x0A # ''Warning: The graph is disconnected. MST includes only connected components.'',
               ''Number of connected components: '' @ str_nat (card connected_components)]
            else [])))))"

subsection \<open>The addition of the weights\<close>

text \<open>
  The source is untyped: \<^verbatim>\<open>total_weight += edge.weight\<close> adds with the addition
  that the weights have. On Python integers it is exact, and that is \<open>kruskal_mst\<close>
  above. The functions below are the same code with the addition as a parameter;
  nothing else in the source computes with weights (\<^verbatim>\<open>sorted\<close> only compares them).
\<close>

definition kruskal_step_with ::
  "(int \<Rightarrow> int \<Rightarrow> int) \<Rightarrow> 'v DisjointSetUnion \<times> 'v GraphEdge list \<times> int \<Rightarrow> 'v GraphEdge \<Rightarrow>
   ('v, 'v DisjointSetUnion \<times> 'v GraphEdge list \<times> int) result" where
  "kruskal_step_with add st edge =
     (case st of (dsu, mst_result, total_weight) \<Rightarrow>
        bind_res (find_dsu dsu (start edge)) (\<lambda>(root1, dsu1).
        bind_res (find_dsu dsu1 (end' edge)) (\<lambda>(root2, dsu2).
          if root1 \<noteq> root2 then
            bind_res (union_dsu dsu2 (start edge) (end' edge)) (\<lambda>dsu3.
              return (dsu3, mst_result @ [edge], add total_weight (weight edge)))
          else return (dsu2, mst_result, total_weight))))"

fun kruskal_loop_with ::
  "(int \<Rightarrow> int \<Rightarrow> int) \<Rightarrow> 'v DisjointSetUnion \<times> 'v GraphEdge list \<times> int \<Rightarrow> 'v GraphEdge list \<Rightarrow>
   ('v, 'v DisjointSetUnion \<times> 'v GraphEdge list \<times> int) result" where
  "kruskal_loop_with add st [] = return st"
| "kruskal_loop_with add st (edge # edges) =
     bind_res (kruskal_step_with add st edge) (\<lambda>st'. kruskal_loop_with add st' edges)"

definition kruskal_mst_with ::
  "(int \<Rightarrow> int \<Rightarrow> int) \<Rightarrow> 'v list \<Rightarrow> 'v GraphEdge list \<Rightarrow>
   ('v, ('v GraphEdge list \<times> int) \<times> string list) result" where
  "kruskal_mst_with add vertices edges =
     (if vertices = [] \<or> edges = [] then
        return (([], 0), [''Error: The graph must have at least one vertex and one edge.''])
      else
        bind_res (DisjointSetUnion_init vertices) (\<lambda>dsu.
        bind_res (kruskal_loop_with add (dsu, [], 0) (sort_key weight edges))
          (\<lambda>(dsu', mst_result, total_weight).
        bind_res (find_all dsu' vertices) (\<lambda>(roots, dsu'').
          let connected_components = set roots in
          return ((mst_result, total_weight),
            if card connected_components > 1 then
              [CHR 0x0A # ''Warning: The graph is disconnected. MST includes only connected components.'',
               ''Number of connected components: '' @ str_nat (card connected_components)]
            else [])))))"

text \<open>
  Python floats are IEEE 754 doubles, and their addition rounds. A double whose value
  is an integer is represented by that integer. \<open>round_to_double n\<close> is the double
  nearest to the integer \<open>n\<close>: an integer of magnitude below \<open>2^53\<close> is a double;
  a longer one keeps its 53 leading bits, rounded to nearest, a tie going to the even
  significand (magnitudes stay far below \<open>2^1024\<close> here, so overflow is left out).
  The sum of two such doubles is the double nearest to their exact sum. The first
  addition, \<^verbatim>\<open>0 + x\<close> with the integer \<^verbatim>\<open>0\<close>, converts \<^verbatim>\<open>0\<close> to \<^verbatim>\<open>0.0\<close>.
  \<open>bit_length\<close> is the number of binary digits of a positive integer.
\<close>

function bit_length :: "int \<Rightarrow> nat" where
  "bit_length n = (if n \<le> 0 then 0 else Suc (bit_length (n div 2)))"
  by pat_completeness auto
termination
  by (relation "measure nat") auto

declare bit_length.simps [simp del]

definition round_to_double :: "int \<Rightarrow> int" where
  "round_to_double n =
     (let a = \<bar>n\<bar> in
      if a < 2 ^ 53 then n
      else
        let k = bit_length a - 53;
            q = a div 2 ^ k;
            r = a mod 2 ^ k;
            q' = (if 2 * r > 2 ^ k \<or> (2 * r = 2 ^ k \<and> odd q) then q + 1 else q)
        in sgn n * (q' * 2 ^ k))"

definition float_add :: "int \<Rightarrow> int \<Rightarrow> int" where
  "float_add x y = round_to_double (x + y)"

text \<open>The graph of the demonstration block.\<close>

definition nodes_kruskal :: "string list" where
  "nodes_kruskal = [''a'', ''b'', ''c'', ''d'', ''e'', ''f'', ''g'', ''h'', ''i'']"

definition edges_kruskal :: "string GraphEdge list" where
  "edges_kruskal =
     [\<lparr>weight = 4, start = ''a'', end' = ''b''\<rparr>,
      \<lparr>weight = 8, start = ''a'', end' = ''h''\<rparr>,
      \<lparr>weight = 8, start = ''b'', end' = ''c''\<rparr>,
      \<lparr>weight = 11, start = ''b'', end' = ''h''\<rparr>,
      \<lparr>weight = 7, start = ''c'', end' = ''d''\<rparr>,
      \<lparr>weight = 4, start = ''c'', end' = ''f''\<rparr>,
      \<lparr>weight = 2, start = ''c'', end' = ''i''\<rparr>,
      \<lparr>weight = 6, start = ''c'', end' = ''g''\<rparr>,
      \<lparr>weight = 9, start = ''d'', end' = ''e''\<rparr>,
      \<lparr>weight = 14, start = ''d'', end' = ''f''\<rparr>,
      \<lparr>weight = 10, start = ''e'', end' = ''f''\<rparr>,
      \<lparr>weight = 2, start = ''f'', end' = ''g''\<rparr>,
      \<lparr>weight = 1, start = ''g'', end' = ''h''\<rparr>,
      \<lparr>weight = 7, start = ''h'', end' = ''i''\<rparr>]"


section \<open>Notions the properties are stated in\<close>

subsection \<open>The parent dictionary as a forest\<close>

text \<open>
  \<open>root_of par v r\<close>: following the parent links from \<open>v\<close> ends, after finitely
  many steps, at \<open>r\<close>, a vertex that is its own parent.
\<close>

inductive root_of :: "('v \<rightharpoonup> 'v) \<Rightarrow> 'v \<Rightarrow> 'v \<Rightarrow> bool" for par where
  root_of_self: "par v = Some v \<Longrightarrow> root_of par v v"
| root_of_step: "par v = Some p \<Longrightarrow> p \<noteq> v \<Longrightarrow> root_of par p r \<Longrightarrow> root_of par v r"

text \<open>
  A well-formed DSU over the vertex set \<open>V\<close>: both dictionaries have exactly the
  keys \<open>V\<close>, and every vertex reaches a root.
\<close>

definition dsu_inv :: "'v set \<Rightarrow> 'v DisjointSetUnion \<Rightarrow> bool" where
  "dsu_inv V d \<longleftrightarrow>
     dom (parent d) = V \<and> dom (rank d) = V \<and> (\<forall>v\<in>V. \<exists>r. root_of (parent d) v r)"

text \<open>The proper parent links, as a relation from child to parent.\<close>

definition parent_links :: "'v DisjointSetUnion \<Rightarrow> ('v \<times> 'v) set" where
  "parent_links d = {(v, p). parent d v = Some p \<and> p \<noteq> v}"

text \<open>The partition a DSU stands for: two vertices are related when they reach the same root.\<close>

definition rep_rel :: "'v DisjointSetUnion \<Rightarrow> ('v \<times> 'v) set" where
  "rep_rel d = {(u, v). \<exists>r. root_of (parent d) u r \<and> root_of (parent d) v r}"

text \<open>No rank is lost or lowered from \<open>d\<close> to \<open>d'\<close>.\<close>

definition rank_le :: "'v DisjointSetUnion \<Rightarrow> 'v DisjointSetUnion \<Rightarrow> bool" where
  "rank_le d d' \<longleftrightarrow> (\<forall>v m. rank d v = Some m \<longrightarrow> (\<exists>n. rank d' v = Some n \<and> m \<le> n))"

text \<open>
  The states a program can get to: construction over \<open>vertices\<close>, then any calls of
  \<^verbatim>\<open>find\<close> and \<^verbatim>\<open>union\<close> on vertices of that set that return.
\<close>

inductive reachable :: "'v list \<Rightarrow> 'v DisjointSetUnion \<Rightarrow> bool" for vertices where
  reachable_init: "DisjointSetUnion_init vertices = Some (Inr d) \<Longrightarrow> reachable vertices d"
| reachable_find: "reachable vertices d \<Longrightarrow> v \<in> set vertices \<Longrightarrow>
     find_dsu d v = Some (Inr (r, d')) \<Longrightarrow> reachable vertices d'"
| reachable_union: "reachable vertices d \<Longrightarrow> a \<in> set vertices \<Longrightarrow> b \<in> set vertices \<Longrightarrow>
     union_dsu d a b = Some (Inr d') \<Longrightarrow> reachable vertices d'"

subsection \<open>Undirected graphs given by edge sets\<close>

definition edge_rel :: "'v GraphEdge set \<Rightarrow> ('v \<times> 'v) set" where
  "edge_rel E = (\<lambda>e. (start e, end' e)) ` E \<union> (\<lambda>e. (end' e, start e)) ` E"

text \<open>\<open>(a, b) \<in> uconn E\<close>: a walk along edges of \<open>E\<close>, in either direction, leads from \<open>a\<close> to \<open>b\<close>.\<close>

definition uconn :: "'v GraphEdge set \<Rightarrow> ('v \<times> 'v) set" where
  "uconn E = (edge_rel E)\<^sup>*"

text \<open>The vertices of \<open>V\<close> connected to \<open>v\<close>.\<close>

definition component :: "'v set \<Rightarrow> 'v GraphEdge set \<Rightarrow> 'v \<Rightarrow> 'v set" where
  "component V E v = {u \<in> V. (v, u) \<in> uconn E}"

text \<open>The connected components of the graph \<open>(V, E)\<close>, as sets of vertices.\<close>

definition comps :: "'v set \<Rightarrow> 'v GraphEdge set \<Rightarrow> 'v set set" where
  "comps V E = (\<lambda>v. {u \<in> V. (v, u) \<in> uconn E}) ` V"

text \<open>
  An edge set without a cycle: no edge joins two vertices that the other edges of the
  set already connect. (A loop and one of two parallel edges are cycles.)
\<close>

definition acyclic_edges :: "'v GraphEdge set \<Rightarrow> bool" where
  "acyclic_edges T \<longleftrightarrow> (\<forall>e\<in>T. (start e, end' e) \<notin> uconn (T - {e}))"

definition connected_graph :: "'v set \<Rightarrow> 'v GraphEdge set \<Rightarrow> bool" where
  "connected_graph V E \<longleftrightarrow> (\<forall>a\<in>V. \<forall>b\<in>V. (a, b) \<in> uconn E)"

definition spanning_tree :: "'v set \<Rightarrow> 'v GraphEdge set \<Rightarrow> 'v GraphEdge set \<Rightarrow> bool" where
  "spanning_tree V E T \<longleftrightarrow> T \<subseteq> E \<and> acyclic_edges T \<and> connected_graph V T"

definition total :: "'v GraphEdge set \<Rightarrow> int" where
  "total T = (\<Sum>e\<in>T. weight e)"

text \<open>Every edge of the list has both ends in \<open>V\<close>.\<close>

definition endpoints_in :: "'v set \<Rightarrow> 'v GraphEdge set \<Rightarrow> bool" where
  "endpoints_in V E \<longleftrightarrow> (\<forall>e\<in>E. start e \<in> V \<and> end' e \<in> V)"

text \<open>
  The acceptance rule without the data structure: an edge is taken when the edges
  taken so far do not connect its ends.
\<close>

fun accepted :: "'v GraphEdge list \<Rightarrow> 'v GraphEdge list \<Rightarrow> 'v GraphEdge list" where
  "accepted acc [] = acc"
| "accepted acc (e # es) =
     (if (start e, end' e) \<in> uconn (set acc) then accepted acc es
      else accepted (acc @ [e]) es)"

text \<open>
  The check of a forest by replay: the edges go, in order, through a DSU; the answer
  is \<open>False\<close> as soon as an edge has both ends under one root, and every other edge
  is united.
\<close>

fun replay :: "'v DisjointSetUnion \<Rightarrow> 'v GraphEdge list \<Rightarrow> ('v, bool) result" where
  "replay dsu [] = return True"
| "replay dsu (edge # edges) =
     bind_res (find_dsu dsu (start edge)) (\<lambda>(root1, dsu1).
     bind_res (find_dsu dsu1 (end' edge)) (\<lambda>(root2, dsu2).
       if root1 = root2 then return False
       else bind_res (union_dsu dsu2 (start edge) (end' edge)) (\<lambda>dsu3. replay dsu3 edges)))"


text \<open>
  A DSU over \<open>a, b, c, d\<close> in which \<open>d\<close> is two links away from its root:
  the state after \<^verbatim>\<open>union(a, b)\<close>, \<^verbatim>\<open>union(c, d)\<close>, \<^verbatim>\<open>union(a, c)\<close>.
\<close>

definition dsu_chain :: "string DisjointSetUnion" where
  "dsu_chain = \<lparr>parent = [''a'' \<mapsto> ''a'', ''b'' \<mapsto> ''a'', ''c'' \<mapsto> ''a'', ''d'' \<mapsto> ''c''],
                 rank = [''a'' \<mapsto> 2, ''b'' \<mapsto> 0, ''c'' \<mapsto> 1, ''d'' \<mapsto> 0]\<rparr>"

section \<open>The disjoint-set union\<close>

lemma returns_iff: "returns m x \<longleftrightarrow> m = Some (Inr x)"
  unfolding returns_def by (auto split: option.splits sum.splits)


subsection \<open>Roots and path compression\<close>

lemma root_of_root: "root_of par v r \<Longrightarrow> par r = Some r"
  by (induction rule: root_of.induct) auto

lemma root_of_unique: "root_of par v r \<Longrightarrow> root_of par v r' \<Longrightarrow> r = r'"
proof (induction arbitrary: r' rule: root_of.induct)
  case (root_of_self v)
  note hyp = \<open>par v = Some v\<close>
  from \<open>root_of par v r'\<close> show ?case
  proof (cases rule: root_of.cases)
    case root_of_self
    then show ?thesis by simp
  next
    case (root_of_step p)
    with hyp show ?thesis by simp
  qed
next
  case (root_of_step v p r)
  note hyps = \<open>par v = Some p\<close> \<open>p \<noteq> v\<close>
  note IH = root_of_step.IH
  from \<open>root_of par v r'\<close> show ?case
  proof (cases rule: root_of.cases)
    case root_of_self
    with hyps show ?thesis by simp
  next
    case (root_of_step q)
    with hyps have "q = p" by simp
    with root_of_step(3) have "root_of par p r'" by simp
    then show ?thesis by (rule IH)
  qed
qed

lemma root_of_dom: "root_of par v r \<Longrightarrow> v \<in> dom par"
  by (cases rule: root_of.cases) auto

lemma root_of_compress:
  assumes vr: "root_of par v r" and us: "root_of par u s"
  shows "root_of (par(v \<mapsto> r)) u s"
  using us
proof (induction rule: root_of.induct)
  case (root_of_self u)
  show ?case
  proof (cases "u = v")
    case True
    have "root_of par u u" using root_of_self by (rule root_of.root_of_self)
    with vr True have "r = u" by (simp add: root_of_unique)
    with True have "(par(v \<mapsto> r)) u = Some u" by simp
    then show ?thesis by (rule root_of.root_of_self)
  next
    case False
    with root_of_self have "(par(v \<mapsto> r)) u = Some u" by simp
    then show ?thesis by (rule root_of.root_of_self)
  qed
next
  case (root_of_step u p s)
  have sroot: "par s = Some s" using root_of_step.hyps(3) by (rule root_of_root)
  show ?case
  proof (cases "u = v")
    case True
    have "root_of par u s" using root_of_step.hyps by (rule root_of.root_of_step)
    with vr True have rs: "r = s" by (simp add: root_of_unique)
    have sv: "s \<noteq> v" using sroot root_of_step.hyps(1,2) True by auto
    with sroot have "(par(v \<mapsto> r)) s = Some s" by simp
    then have ss: "root_of (par(v \<mapsto> r)) s s" by (rule root_of.root_of_self)
    have "(par(v \<mapsto> r)) u = Some s" using rs True by simp
    then show ?thesis using sv[folded True] ss by (rule root_of.root_of_step)
  next
    case False
    with root_of_step.hyps(1) have "(par(v \<mapsto> r)) u = Some p" by simp
    then show ?thesis using root_of_step.hyps(2) root_of_step.IH by (rule root_of.root_of_step)
  qed
qed

lemma find_dsu_unknown: "parent d v = None \<Longrightarrow> find_dsu d v = Some (Inl (KeyError v, d))"
  by (subst find_dsu.simps) simp

lemma find_dsu_root_of:
  assumes "root_of (parent d) v r"
  shows "\<exists>d'. find_dsu d v = Some (Inr (r, d')) \<and> rank d' = rank d \<and>
           dom (parent d') = dom (parent d) \<and>
           (\<forall>u s. root_of (parent d) u s \<longrightarrow> root_of (parent d') u s)"
  using assms
proof (induction rule: root_of.induct)
  case (root_of_self v)
  then have "find_dsu d v = Some (Inr (v, d))"
    by (subst find_dsu.simps) simp
  then show ?case by simp
next
  case (root_of_step v p r)
  from root_of_step.IH obtain d1 where
    f: "find_dsu d p = Some (Inr (r, d1))" and rk: "rank d1 = rank d"
    and dm: "dom (parent d1) = dom (parent d)"
    and pres: "\<forall>u s. root_of (parent d) u s \<longrightarrow> root_of (parent d1) u s"
    by blast
  let ?d' = "d1\<lparr>parent := (parent d1)(v \<mapsto> r)\<rparr>"
  have res: "find_dsu d v = Some (Inr (r, ?d'))"
    using root_of_step.hyps(1,2) f by (subst find_dsu.simps) simp
  have vr: "root_of (parent d) v r"
    using root_of_step.hyps by (rule root_of.root_of_step)
  then have vr1: "root_of (parent d1) v r" using pres by blast
  have "v \<in> dom (parent d)" using root_of_step.hyps(1) by auto
  then have dm': "dom (parent ?d') = dom (parent d)" using dm by auto
  have "\<forall>u s. root_of (parent d) u s \<longrightarrow> root_of (parent ?d') u s"
    using pres root_of_compress[OF vr1] by simp
  with res rk dm' show ?case by auto
qed

lemma find_dsu_inv:
  assumes inv: "dsu_inv V d" and v: "v \<in> V"
  shows "\<exists>r d'. find_dsu d v = Some (Inr (r, d')) \<and> root_of (parent d) v r \<and>
           dsu_inv V d' \<and> rank d' = rank d \<and>
           (\<forall>u s. root_of (parent d') u s \<longleftrightarrow> root_of (parent d) u s)"
proof -
  from inv v obtain r where vr: "root_of (parent d) v r"
    unfolding dsu_inv_def by blast
  from find_dsu_root_of[OF vr] obtain d' where
    f: "find_dsu d v = Some (Inr (r, d'))" and rk: "rank d' = rank d"
    and dm: "dom (parent d') = dom (parent d)"
    and pres: "\<forall>u s. root_of (parent d) u s \<longrightarrow> root_of (parent d') u s"
    by blast
  have bwd: "root_of (parent d) u s" if h: "root_of (parent d') u s" for u s
  proof -
    from h have "u \<in> dom (parent d')" by (rule root_of_dom)
    with dm inv have "u \<in> V" unfolding dsu_inv_def by simp
    with inv obtain s' where s': "root_of (parent d) u s'"
      unfolding dsu_inv_def by blast
    with pres have "root_of (parent d') u s'" by blast
    with h have "s = s'" by (rule root_of_unique)
    with s' show ?thesis by simp
  qed
  have "dsu_inv V d'"
    using inv dm rk pres unfolding dsu_inv_def by metis
  with f vr rk pres bwd show ?thesis by blast
qed

lemma root_of_link:
  assumes r1: "par r1 = Some r1" and r2: "par r2 = Some r2" and ne: "r1 \<noteq> r2"
    and us: "root_of par u s"
  shows "root_of (par(r2 \<mapsto> r1)) u (if s = r2 then r1 else s)"
  using us
proof (induction rule: root_of.induct)
  case (root_of_self u)
  show ?case
  proof (cases "u = r2")
    case True
    have "(par(r2 \<mapsto> r1)) r1 = Some r1" using r1 ne by simp
    then have a: "root_of (par(r2 \<mapsto> r1)) r1 r1" by (rule root_of.root_of_self)
    have "(par(r2 \<mapsto> r1)) r2 = Some r1" by simp
    then have "root_of (par(r2 \<mapsto> r1)) r2 r1" using ne a by (rule root_of.root_of_step)
    then show ?thesis unfolding True if_P[OF refl] .
  next
    case False
    with root_of_self have "(par(r2 \<mapsto> r1)) u = Some u" by simp
    then have "root_of (par(r2 \<mapsto> r1)) u u" by (rule root_of.root_of_self)
    then show ?thesis unfolding if_not_P[OF False] .
  qed
next
  case (root_of_step u p s)
  have "u \<noteq> r2" using root_of_step.hyps(1,2) r2 by auto
  with root_of_step.hyps(1) have "(par(r2 \<mapsto> r1)) u = Some p" by simp
  then show ?case using root_of_step.hyps(2) root_of_step.IH by (rule root_of.root_of_step)
qed

lemma rep_rel_iff:
  assumes "root_of (parent d) u su" and "root_of (parent d) v sv"
  shows "(u, v) \<in> rep_rel d \<longleftrightarrow> su = sv"
  using assms unfolding rep_rel_def by (auto dest: root_of_unique)

lemma rep_rel_cong:
  assumes "\<forall>u s. root_of (parent d') u s \<longleftrightarrow> root_of (parent d) u s"
  shows "rep_rel d' = rep_rel d"
  using assms unfolding rep_rel_def by simp

text \<open>Hanging the root \<open>l\<close> under the root \<open>w\<close>.\<close>

lemma link_inv:
  assumes inv: "dsu_inv V d"
    and a: "root_of (parent d) a ra" and b: "root_of (parent d) b rb"
    and ne: "ra \<noteq> rb"
    and wl: "(w, l) = (ra, rb) \<or> (w, l) = (rb, ra)"
    and par: "parent d' = (parent d)(l \<mapsto> w)"
    and rkdom: "dom (rank d') = dom (rank d)"
  shows "dsu_inv V d' \<and>
         rep_rel d' = rep_rel d \<union> {(u, v). (u, a) \<in> rep_rel d \<and> (b, v) \<in> rep_rel d}
                                \<union> {(u, v). (u, b) \<in> rep_rel d \<and> (a, v) \<in> rep_rel d}"
proof -
  have rra: "parent d ra = Some ra" using a by (rule root_of_root)
  have rrb: "parent d rb = Some rb" using b by (rule root_of_root)
  from wl rra rrb ne have w: "parent d w = Some w" and l: "parent d l = Some l" and wl_ne: "w \<noteq> l"
    by auto
  have fwd: "root_of (parent d') u (if s = l then w else s)" if "root_of (parent d) u s" for u s
    unfolding par using w l wl_ne that by (rule root_of_link)
  have lV: "l \<in> V" using l inv unfolding dsu_inv_def by auto
  then have dm: "dom (parent d') = V" using inv par unfolding dsu_inv_def by auto
  have ex: "\<exists>r. root_of (parent d') v r" if "v \<in> V" for v
    using that inv fwd unfolding dsu_inv_def by blast
  have inv': "dsu_inv V d'"
    using dm rkdom inv ex unfolding dsu_inv_def by simp
  have char: "(u, v) \<in> rep_rel d' \<longleftrightarrow>
      (\<exists>su sv. root_of (parent d) u su \<and> root_of (parent d) v sv \<and>
         (if su = l then w else su) = (if sv = l then w else sv))" for u v
  proof
    assume "(u, v) \<in> rep_rel d'"
    then obtain r where ur: "root_of (parent d') u r" and vr: "root_of (parent d') v r"
      unfolding rep_rel_def by blast
    from ur have "u \<in> V" using dm root_of_dom by fastforce
    with inv obtain su where su: "root_of (parent d) u su" unfolding dsu_inv_def by blast
    from vr have "v \<in> V" using dm root_of_dom by fastforce
    with inv obtain sv where sv: "root_of (parent d) v sv" unfolding dsu_inv_def by blast
    have "r = (if su = l then w else su)" using ur fwd[OF su] by (rule root_of_unique)
    moreover have "r = (if sv = l then w else sv)" using vr fwd[OF sv] by (rule root_of_unique)
    ultimately show "\<exists>su sv. root_of (parent d) u su \<and> root_of (parent d) v sv \<and>
         (if su = l then w else su) = (if sv = l then w else sv)"
      using su sv by metis
  next
    assume "\<exists>su sv. root_of (parent d) u su \<and> root_of (parent d) v sv \<and>
         (if su = l then w else su) = (if sv = l then w else sv)"
    then obtain su sv where su: "root_of (parent d) u su" and sv: "root_of (parent d) v sv"
      and eq: "(if su = l then w else su) = (if sv = l then w else sv)" by blast
    from fwd[OF su] fwd[OF sv] eq show "(u, v) \<in> rep_rel d'"
      unfolding rep_rel_def by auto
  qed
  have ua: "(u, a) \<in> rep_rel d \<longleftrightarrow> root_of (parent d) u ra" for u
    using a unfolding rep_rel_def by (auto dest: root_of_unique)
  have ub: "(u, b) \<in> rep_rel d \<longleftrightarrow> root_of (parent d) u rb" for u
    using b unfolding rep_rel_def by (auto dest: root_of_unique)
  have au: "(a, u) \<in> rep_rel d \<longleftrightarrow> root_of (parent d) u ra" for u
    using a unfolding rep_rel_def by (auto dest: root_of_unique)
  have bu: "(b, u) \<in> rep_rel d \<longleftrightarrow> root_of (parent d) u rb" for u
    using b unfolding rep_rel_def by (auto dest: root_of_unique)
  have "(u, v) \<in> rep_rel d' \<longleftrightarrow>
        (u, v) \<in> rep_rel d \<or> ((u, a) \<in> rep_rel d \<and> (b, v) \<in> rep_rel d)
          \<or> ((u, b) \<in> rep_rel d \<and> (a, v) \<in> rep_rel d)" for u v
  proof
    assume "(u, v) \<in> rep_rel d'"
    then obtain su sv where su: "root_of (parent d) u su" and sv: "root_of (parent d) v sv"
      and eq: "(if su = l then w else su) = (if sv = l then w else sv)"
      unfolding char by blast
    show "(u, v) \<in> rep_rel d \<or> ((u, a) \<in> rep_rel d \<and> (b, v) \<in> rep_rel d)
          \<or> ((u, b) \<in> rep_rel d \<and> (a, v) \<in> rep_rel d)"
    proof (cases "su = sv")
      case True
      with su sv show ?thesis unfolding rep_rel_def by blast
    next
      case False
      with eq have "(su = l \<and> sv = w) \<or> (su = w \<and> sv = l)" by (auto split: if_splits)
      with wl have "(su = ra \<and> sv = rb) \<or> (su = rb \<and> sv = ra)" by auto
      with su sv show ?thesis unfolding ua ub au bu by auto
    qed
  next
    assume h: "(u, v) \<in> rep_rel d \<or> ((u, a) \<in> rep_rel d \<and> (b, v) \<in> rep_rel d)
          \<or> ((u, b) \<in> rep_rel d \<and> (a, v) \<in> rep_rel d)"
    then consider "(u, v) \<in> rep_rel d"
      | "root_of (parent d) u ra" "root_of (parent d) v rb"
      | "root_of (parent d) u rb" "root_of (parent d) v ra"
      unfolding ua ub au bu by blast
    then show "(u, v) \<in> rep_rel d'"
    proof cases
      case 1
      then obtain r where "root_of (parent d) u r" "root_of (parent d) v r"
        unfolding rep_rel_def by blast
      then show ?thesis unfolding char by blast
    next
      case 2
      moreover have "(if ra = l then w else ra) = (if rb = l then w else rb)"
        using wl ne by auto
      ultimately show ?thesis unfolding char by blast
    next
      case 3
      moreover have "(if rb = l then w else rb) = (if ra = l then w else ra)"
        using wl ne by auto
      ultimately show ?thesis unfolding char by blast
    qed
  qed
  then have "rep_rel d' = rep_rel d \<union> {(u, v). (u, a) \<in> rep_rel d \<and> (b, v) \<in> rep_rel d}
                                \<union> {(u, v). (u, b) \<in> rep_rel d \<and> (a, v) \<in> rep_rel d}"
    by auto
  with inv' show ?thesis by simp
qed

subsection \<open>Union and construction\<close>

lemma rank_le_refl: "rank d' = rank d \<Longrightarrow> rank_le d d'"
  unfolding rank_le_def by simp

lemma rep_rel_sym: "(u, v) \<in> rep_rel d \<Longrightarrow> (v, u) \<in> rep_rel d"
  unfolding rep_rel_def by blast

lemma rep_rel_trans:
  assumes "(u, v) \<in> rep_rel d" and "(v, w) \<in> rep_rel d"
  shows "(u, w) \<in> rep_rel d"
proof -
  from assms(1) obtain r where r: "root_of (parent d) u r" "root_of (parent d) v r"
    unfolding rep_rel_def by blast
  from assms(2) obtain r' where r': "root_of (parent d) v r'" "root_of (parent d) w r'"
    unfolding rep_rel_def by blast
  from r(2) r'(1) have "r = r'" by (rule root_of_unique)
  with r(1) r'(2) show ?thesis unfolding rep_rel_def by blast
qed

lemma dsu_inv_root:
  assumes "dsu_inv V d" and "root_of (parent d) v r"
  shows "r \<in> V"
proof -
  from assms(2) have "parent d r = Some r" by (rule root_of_root)
  then have "r \<in> dom (parent d)" by (rule domI)
  with assms(1) show ?thesis unfolding dsu_inv_def by simp
qed

lemma union_dsu_inv:
  assumes inv: "dsu_inv V d" and a: "a \<in> V" and b: "b \<in> V"
  shows "\<exists>d'. union_dsu d a b = Some (Inr d') \<and> dsu_inv V d' \<and> rank_le d d' \<and>
           rep_rel d' = rep_rel d \<union> {(u, v). (u, a) \<in> rep_rel d \<and> (b, v) \<in> rep_rel d}
                                  \<union> {(u, v). (u, b) \<in> rep_rel d \<and> (a, v) \<in> rep_rel d}"
proof -
  from find_dsu_inv[OF inv a] obtain ra d1 where
    f1: "find_dsu d a = Some (Inr (ra, d1))" and ara: "root_of (parent d) a ra"
    and inv1: "dsu_inv V d1" and rk1: "rank d1 = rank d"
    and eq1: "\<forall>u s. root_of (parent d1) u s \<longleftrightarrow> root_of (parent d) u s"
    by blast
  from find_dsu_inv[OF inv1 b] obtain rb d2 where
    f2: "find_dsu d1 b = Some (Inr (rb, d2))" and brb1: "root_of (parent d1) b rb"
    and inv2: "dsu_inv V d2" and rk2: "rank d2 = rank d1"
    and eq2: "\<forall>u s. root_of (parent d2) u s \<longleftrightarrow> root_of (parent d1) u s"
    by blast
  have eq: "\<forall>u s. root_of (parent d2) u s \<longleftrightarrow> root_of (parent d) u s"
    using eq1 eq2 by simp
  have rr: "rep_rel d2 = rep_rel d" using eq by (rule rep_rel_cong)
  have rk: "rank d2 = rank d" using rk1 rk2 by simp
  have a2: "root_of (parent d2) a ra" using ara eq by simp
  have b2: "root_of (parent d2) b rb" using brb1 eq2 by simp
  have ab_in: "ra \<in> V" "rb \<in> V"
    using dsu_inv_root[OF inv2 a2] dsu_inv_root[OF inv2 b2] by simp_all
  show ?thesis
  proof (cases "ra = rb")
    case True
    have u: "union_dsu d a b = Some (Inr d2)"
      by (simp add: union_dsu_def f1 f2 bind_res_def return_def True)
    have ab: "(a, b) \<in> rep_rel d" using ara brb1 eq1 True unfolding rep_rel_def by blast
    have B: "{(u, v). (u, a) \<in> rep_rel d \<and> (b, v) \<in> rep_rel d} \<subseteq> rep_rel d"
    proof clarify
      fix u v assume 1: "(u, a) \<in> rep_rel d" and 2: "(b, v) \<in> rep_rel d"
      from 1 ab have "(u, b) \<in> rep_rel d" by (rule rep_rel_trans)
      then show "(u, v) \<in> rep_rel d" using 2 by (rule rep_rel_trans)
    qed
    have C: "{(u, v). (u, b) \<in> rep_rel d \<and> (a, v) \<in> rep_rel d} \<subseteq> rep_rel d"
    proof clarify
      fix u v assume 1: "(u, b) \<in> rep_rel d" and 2: "(a, v) \<in> rep_rel d"
      from ab have "(b, a) \<in> rep_rel d" by (rule rep_rel_sym)
      with 1 have "(u, a) \<in> rep_rel d" by (rule rep_rel_trans)
      then show "(u, v) \<in> rep_rel d" using 2 by (rule rep_rel_trans)
    qed
    from B C have e: "rep_rel d2 = rep_rel d \<union> {(u, v). (u, a) \<in> rep_rel d \<and> (b, v) \<in> rep_rel d}
                                  \<union> {(u, v). (u, b) \<in> rep_rel d \<and> (a, v) \<in> rep_rel d}"
      unfolding rr by blast
    have "rank_le d d2" using rk by (rule rank_le_refl)
    with u inv2 e show ?thesis by blast
  next
    case False
    from ab_in obtain k1 where k1: "rank d2 ra = Some k1" using inv2 unfolding dsu_inv_def by blast
    from ab_in obtain k2 where k2: "rank d2 rb = Some k2" using inv2 unfolding dsu_inv_def by blast
    define d' where "d' =
       (if k1 > k2 then d2\<lparr>parent := (parent d2)(rb \<mapsto> ra)\<rparr>
        else if k1 < k2 then d2\<lparr>parent := (parent d2)(ra \<mapsto> rb)\<rparr>
        else d2\<lparr>parent := (parent d2)(rb \<mapsto> ra), rank := (rank d2)(ra \<mapsto> k1 + 1)\<rparr>)"
    have u: "union_dsu d a b = Some (Inr d')"
      by (simp add: union_dsu_def f1 f2 bind_res_def return_def False subscript_def k1 k2 d'_def)
    define w where "w = (if k1 < k2 then rb else ra)"
    define l where "l = (if k1 < k2 then ra else rb)"
    have wl: "(w, l) = (ra, rb) \<or> (w, l) = (rb, ra)" unfolding w_def l_def by simp
    have par: "parent d' = (parent d2)(l \<mapsto> w)"
      unfolding d'_def w_def l_def by auto
    have rkdom: "dom (rank d') = dom (rank d2)"
      unfolding d'_def using k1 by auto
    have rl: "rank_le d d'"
      unfolding rank_le_def rk[symmetric] d'_def using k1 by auto
    from link_inv[OF inv2 a2 b2 False wl par rkdom] have "dsu_inv V d'" and
      "rep_rel d' = rep_rel d \<union> {(u, v). (u, a) \<in> rep_rel d \<and> (b, v) \<in> rep_rel d}
                                  \<union> {(u, v). (u, b) \<in> rep_rel d \<and> (a, v) \<in> rep_rel d}"
      unfolding rr by simp_all
    with u rl show ?thesis by blast
  qed
qed

lemma map_of_self: "map_of (map (\<lambda>v. (v, f v)) vs) x = (if x \<in> set vs then Some (f x) else None)"
  by (induction vs) auto

lemma init_inv:
  "\<exists>d. DisjointSetUnion_init vs = Some (Inr d) \<and> dsu_inv (set vs) d \<and>
       (\<forall>v\<in>set vs. parent d v = Some v \<and> rank d v = Some 0) \<and> rep_rel d = Id_on (set vs)"
proof -
  define d :: "'a DisjointSetUnion" where "d = \<lparr>parent = map_of (map (\<lambda>vertex. (vertex, vertex)) vs),
             rank = map_of (map (\<lambda>vertex. (vertex, 0)) vs)\<rparr>"
  have i: "DisjointSetUnion_init vs = Some (Inr d)"
    by (simp add: DisjointSetUnion_init_def return_def d_def)
  have p: "parent d v = (if v \<in> set vs then Some v else None)" for v
    by (simp add: d_def map_of_self)
  have r: "rank d v = (if v \<in> set vs then Some 0 else None)" for v
    by (simp add: d_def map_of_self)
  have ro: "root_of (parent d) u s \<longleftrightarrow> u \<in> set vs \<and> s = u" for u s
  proof
    assume "root_of (parent d) u s"
    then show "u \<in> set vs \<and> s = u"
      by (cases rule: root_of.cases) (auto simp: p split: if_splits)
  next
    assume "u \<in> set vs \<and> s = u"
    then show "root_of (parent d) u s" by (auto simp: p intro: root_of.root_of_self)
  qed
  have "dsu_inv (set vs) d"
    unfolding dsu_inv_def by (auto simp: p r ro dom_def)
  moreover have "rep_rel d = Id_on (set vs)"
    unfolding rep_rel_def by (auto simp: ro)
  ultimately show ?thesis using i p r by auto
qed

section \<open>Graphs\<close>

subsection \<open>Connection by edges\<close>

lemma edge_rel_sym: "(a, b) \<in> edge_rel E \<Longrightarrow> (b, a) \<in> edge_rel E"
  unfolding edge_rel_def by auto

lemma edge_rel_mono: "E \<subseteq> E' \<Longrightarrow> edge_rel E \<subseteq> edge_rel E'"
  unfolding edge_rel_def by auto

lemma edge_rel_insert:
  "edge_rel (insert e E) = insert (start e, end' e) (insert (end' e, start e) (edge_rel E))"
  unfolding edge_rel_def by auto

lemma uconn_refl: "(a, a) \<in> uconn E"
  unfolding uconn_def by simp

lemma uconn_trans: "(a, b) \<in> uconn E \<Longrightarrow> (b, c) \<in> uconn E \<Longrightarrow> (a, c) \<in> uconn E"
  unfolding uconn_def by (rule rtrancl_trans)

lemma uconn_sym: "(a, b) \<in> uconn E \<Longrightarrow> (b, a) \<in> uconn E"
  unfolding uconn_def
proof (induction rule: rtrancl_induct)
  case base
  show ?case by simp
next
  case (step y z)
  from step.hyps(2) have "(z, y) \<in> edge_rel E" by (rule edge_rel_sym)
  then have "(z, y) \<in> (edge_rel E)\<^sup>*" by (rule r_into_rtrancl)
  then show ?case using step.IH by (rule rtrancl_trans)
qed

lemma uconn_mono: "E \<subseteq> E' \<Longrightarrow> uconn E \<subseteq> uconn E'"
  unfolding uconn_def by (rule rtrancl_mono) (rule edge_rel_mono)

lemma uconn_edge: "e \<in> E \<Longrightarrow> (start e, end' e) \<in> uconn E"
  unfolding uconn_def edge_rel_def by (rule r_into_rtrancl) simp

lemma uconn_empty: "uconn {} = Id"
  unfolding uconn_def edge_rel_def by simp

text \<open>What one more edge connects.\<close>

lemma uconn_insert:
  "uconn (insert e E) =
     uconn E \<union> {(x, y). (x, start e) \<in> uconn E \<and> (end' e, y) \<in> uconn E}
             \<union> {(x, y). (x, end' e) \<in> uconn E \<and> (start e, y) \<in> uconn E}"
  (is "?L = ?R")
proof (rule equalityI; rule subrelI)
  fix x y assume "(x, y) \<in> ?L"
  then have "(x, y) \<in> (edge_rel (insert e E))\<^sup>*" unfolding uconn_def .
  then show "(x, y) \<in> ?R"
  proof (induction rule: rtrancl_induct)
    case base
    show ?case by (simp add: uconn_refl)
  next
    case (step y z)
    from step.hyps(2) consider "(y, z) \<in> edge_rel E" | "y = start e" "z = end' e"
      | "y = end' e" "z = start e"
      unfolding edge_rel_insert by auto
    then show ?case
    proof cases
      case 1
      then have yz: "(y, z) \<in> uconn E" unfolding uconn_def by (rule r_into_rtrancl)
      from step.IH consider "(x, y) \<in> uconn E"
        | "(x, start e) \<in> uconn E" "(end' e, y) \<in> uconn E"
        | "(x, end' e) \<in> uconn E" "(start e, y) \<in> uconn E" by auto
      then show ?thesis
      proof cases
        case 1
        then have "(x, z) \<in> uconn E" using yz by (rule uconn_trans)
        then show ?thesis by simp
      next
        case 2
        from 2(2) yz have "(end' e, z) \<in> uconn E" by (rule uconn_trans)
        with 2(1) show ?thesis by simp
      next
        case 3
        from 3(2) yz have "(start e, z) \<in> uconn E" by (rule uconn_trans)
        with 3(1) show ?thesis by simp
      qed
    next
      case 2
      from step.IH consider "(x, start e) \<in> uconn E"
        | "(x, end' e) \<in> uconn E" unfolding 2
        using uconn_refl[of "start e" E] by (auto intro: uconn_trans)
      then show ?thesis
      proof cases
        case 1
        then show ?thesis unfolding 2 using uconn_refl[of "end' e" E] by simp
      next
        case 2
        then show ?thesis unfolding \<open>z = end' e\<close> by simp
      qed
    next
      case 3
      from step.IH consider "(x, end' e) \<in> uconn E"
        | "(x, start e) \<in> uconn E" unfolding 3
        using uconn_refl[of "end' e" E] by (auto intro: uconn_trans)
      then show ?thesis
      proof cases
        case 1
        then show ?thesis unfolding 3 using uconn_refl[of "start e" E] by simp
      next
        case 2
        then show ?thesis unfolding \<open>z = start e\<close> by simp
      qed
    qed
  qed
next
  fix x y assume h: "(x, y) \<in> ?R"
  have m: "uconn E \<subseteq> uconn (insert e E)" by (rule uconn_mono) auto
  have se: "(start e, end' e) \<in> uconn (insert e E)" by (rule uconn_edge) simp
  then have es: "(end' e, start e) \<in> uconn (insert e E)" by (rule uconn_sym)
  from h consider "(x, y) \<in> uconn E"
    | "(x, start e) \<in> uconn E" "(end' e, y) \<in> uconn E"
    | "(x, end' e) \<in> uconn E" "(start e, y) \<in> uconn E" by auto
  then show "(x, y) \<in> ?L"
  proof cases
    case 1
    with m show ?thesis by auto
  next
    case 2
    with m have "(x, start e) \<in> ?L" "(end' e, y) \<in> ?L" by auto
    with se show ?thesis by (meson uconn_trans)
  next
    case 3
    with m have "(x, end' e) \<in> ?L" "(start e, y) \<in> ?L" by auto
    with es show ?thesis by (meson uconn_trans)
  qed
qed

lemma uconn_insert_absorb:
  assumes "(start e, end' e) \<in> uconn E"
  shows "uconn (insert e E) = uconn E"
proof -
  from assms have r: "(end' e, start e) \<in> uconn E" by (rule uconn_sym)
  have "{(x, y). (x, start e) \<in> uconn E \<and> (end' e, y) \<in> uconn E} \<subseteq> uconn E"
  proof clarify
    fix x y assume 1: "(x, start e) \<in> uconn E" and 2: "(end' e, y) \<in> uconn E"
    from 1 assms have "(x, end' e) \<in> uconn E" by (rule uconn_trans)
    then show "(x, y) \<in> uconn E" using 2 by (rule uconn_trans)
  qed
  moreover have "{(x, y). (x, end' e) \<in> uconn E \<and> (start e, y) \<in> uconn E} \<subseteq> uconn E"
  proof clarify
    fix x y assume 1: "(x, end' e) \<in> uconn E" and 2: "(start e, y) \<in> uconn E"
    from 1 r have "(x, start e) \<in> uconn E" by (rule uconn_trans)
    then show "(x, y) \<in> uconn E" using 2 by (rule uconn_trans)
  qed
  ultimately show ?thesis unfolding uconn_insert by blast
qed

section \<open>The loop of kruskal\_mst and the acceptance rule\<close>

lemma accepted_step: "accepted acc (e # es) = accepted (accepted acc [e]) es"
  by simp

lemma kruskal_step_spec:
  assumes inv: "dsu_inv V d" and rel: "rep_rel d = uconn (set acc) \<inter> V \<times> V"
    and a: "start e \<in> V" and b: "end' e \<in> V"
  shows "\<exists>d'. kruskal_step (d, acc, tot) e =
            Some (Inr (d', accepted acc [e],
                       if (start e, end' e) \<in> uconn (set acc) then tot else tot + weight e)) \<and>
          dsu_inv V d' \<and> rep_rel d' = uconn (set (accepted acc [e])) \<inter> V \<times> V"
proof -
  from find_dsu_inv[OF inv a] obtain ra d1 where
    f1: "find_dsu d (start e) = Some (Inr (ra, d1))" and ara: "root_of (parent d) (start e) ra"
    and inv1: "dsu_inv V d1"
    and eq1: "\<forall>u s. root_of (parent d1) u s \<longleftrightarrow> root_of (parent d) u s"
    by blast
  from find_dsu_inv[OF inv1 b] obtain rb d2 where
    f2: "find_dsu d1 (end' e) = Some (Inr (rb, d2))" and brb1: "root_of (parent d1) (end' e) rb"
    and inv2: "dsu_inv V d2"
    and eq2: "\<forall>u s. root_of (parent d2) u s \<longleftrightarrow> root_of (parent d1) u s"
    by blast
  have eq: "\<forall>u s. root_of (parent d2) u s \<longleftrightarrow> root_of (parent d) u s"
    using eq1 eq2 by simp
  have rr: "rep_rel d2 = rep_rel d" using eq by (rule rep_rel_cong)
  have brb: "root_of (parent d) (end' e) rb" using brb1 eq1 by simp
  have "(start e, end' e) \<in> rep_rel d \<longleftrightarrow> ra = rb" using ara brb by (rule rep_rel_iff)
  then have conn: "(start e, end' e) \<in> uconn (set acc) \<longleftrightarrow> ra = rb"
    unfolding rel using a b by simp
  show ?thesis
  proof (cases "ra = rb")
    case True
    then have c: "(start e, end' e) \<in> uconn (set acc)" using conn by simp
    have "kruskal_step (d, acc, tot) e = Some (Inr (d2, acc, tot))"
      by (simp add: kruskal_step_def f1 f2 bind_res_def return_def True)
    with c inv2 rr rel show ?thesis by simp
  next
    case False
    then have c: "(start e, end' e) \<notin> uconn (set acc)" using conn by simp
    from union_dsu_inv[OF inv2 a b] obtain d3 where
      u: "union_dsu d2 (start e) (end' e) = Some (Inr d3)" and inv3: "dsu_inv V d3"
      and r3: "rep_rel d3 = rep_rel d2 \<union>
           {(u, v). (u, start e) \<in> rep_rel d2 \<and> (end' e, v) \<in> rep_rel d2} \<union>
           {(u, v). (u, end' e) \<in> rep_rel d2 \<and> (start e, v) \<in> rep_rel d2}"
      by blast
    have k: "kruskal_step (d, acc, tot) e = Some (Inr (d3, acc @ [e], tot + weight e))"
      by (simp add: kruskal_step_def f1 f2 u bind_res_def return_def False)
    have "rep_rel d3 = uconn (insert e (set acc)) \<inter> V \<times> V"
      unfolding r3 rr rel uconn_insert using a b by auto
    with k c inv3 show ?thesis by simp
  qed
qed

lemma sum_list_accepted_one:
  "sum_list (map weight (accepted acc [e])) =
     (if (start e, end' e) \<in> uconn (set acc) then sum_list (map weight acc)
      else sum_list (map weight acc) + weight e)"
  by simp

lemma kruskal_loop_spec:
  assumes "dsu_inv V d" and "rep_rel d = uconn (set acc) \<inter> V \<times> V"
    and "endpoints_in V (set es)"
  shows "\<exists>d'. kruskal_loop (d, acc, sum_list (map weight acc)) es =
            Some (Inr (d', accepted acc es, sum_list (map weight (accepted acc es)))) \<and>
          dsu_inv V d' \<and> rep_rel d' = uconn (set (accepted acc es)) \<inter> V \<times> V"
  using assms
proof (induction es arbitrary: d acc)
  case Nil
  then show ?case by (simp add: return_def)
next
  case (Cons e es)
  from Cons.prems(3) have a: "start e \<in> V" and b: "end' e \<in> V"
    and rest: "endpoints_in V (set es)"
    unfolding endpoints_in_def by simp_all
  from kruskal_step_spec[OF Cons.prems(1,2) a b, of "sum_list (map weight acc)"]
  obtain d1 where
    s: "kruskal_step (d, acc, sum_list (map weight acc)) e =
          Some (Inr (d1, accepted acc [e], sum_list (map weight (accepted acc [e]))))"
    and inv1: "dsu_inv V d1"
    and rel1: "rep_rel d1 = uconn (set (accepted acc [e])) \<inter> V \<times> V"
    unfolding sum_list_accepted_one by blast
  from Cons.IH[OF inv1 rel1 rest] obtain d' where
    l: "kruskal_loop (d1, accepted acc [e], sum_list (map weight (accepted acc [e]))) es =
            Some (Inr (d', accepted (accepted acc [e]) es,
                       sum_list (map weight (accepted (accepted acc [e]) es))))"
    and inv': "dsu_inv V d'"
    and rel': "rep_rel d' = uconn (set (accepted (accepted acc [e]) es)) \<inter> V \<times> V"
    by blast
  have "kruskal_loop (d, acc, sum_list (map weight acc)) (e # es) =
          Some (Inr (d', accepted acc (e # es), sum_list (map weight (accepted acc (e # es)))))"
    unfolding accepted_step[of acc e es] using s l by (simp add: bind_res_def)
  with inv' rel' show ?case unfolding accepted_step[of acc e es] by blast
qed

lemma find_all_spec:
  assumes "dsu_inv V d" and "set vs \<subseteq> V"
  shows "\<exists>rs d'. find_all d vs = Some (Inr (rs, d')) \<and> list_all2 (root_of (parent d)) vs rs"
  using assms
proof (induction vs arbitrary: d)
  case Nil
  show ?case by (simp add: return_def)
next
  case (Cons v vs)
  from Cons.prems have v: "v \<in> V" and rest: "set vs \<subseteq> V" by simp_all
  from find_dsu_inv[OF Cons.prems(1) v] obtain r d1 where
    f: "find_dsu d v = Some (Inr (r, d1))" and vr: "root_of (parent d) v r"
    and inv1: "dsu_inv V d1"
    and eq1: "\<forall>u s. root_of (parent d1) u s \<longleftrightarrow> root_of (parent d) u s"
    by blast
  from Cons.IH[OF inv1 rest] obtain rs d' where
    fa: "find_all d1 vs = Some (Inr (rs, d'))" and l: "list_all2 (root_of (parent d1)) vs rs"
    by blast
  from eq1 have "root_of (parent d1) = root_of (parent d)" by (intro ext) simp
  with l have l': "list_all2 (root_of (parent d)) vs rs" by simp
  have "find_all d (v # vs) = Some (Inr (r # rs, d'))"
    using f fa by (simp add: bind_res_def return_def)
  with vr l' show ?case by simp
qed

lemma list_all2_set1: "list_all2 P xs ys \<Longrightarrow> x \<in> set xs \<Longrightarrow> \<exists>y\<in>set ys. P x y"
  by (induction rule: list_all2_induct) auto

lemma list_all2_set2: "list_all2 P xs ys \<Longrightarrow> y \<in> set ys \<Longrightarrow> \<exists>x\<in>set xs. P x y"
  by (induction rule: list_all2_induct) auto

lemma roots_card:
  assumes inv: "dsu_inv V d" and rel: "rep_rel d = uconn E \<inter> V \<times> V"
    and l: "list_all2 (root_of (parent d)) vs rs" and vs: "set vs = V"
  shows "card (set rs) = card (comps V E)"
proof -
  define f where "f r = {u \<in> V. root_of (parent d) u r}" for r
  have cls: "{u \<in> V. (v, u) \<in> uconn E} = f r" if v: "v \<in> V" and vr: "root_of (parent d) v r" for v r
  proof -
    have "(v, u) \<in> uconn E \<longleftrightarrow> root_of (parent d) u r" if u: "u \<in> V" for u
    proof -
      from inv u obtain s where us: "root_of (parent d) u s" unfolding dsu_inv_def by blast
      have "(v, u) \<in> rep_rel d \<longleftrightarrow> r = s" using vr us by (rule rep_rel_iff)
      moreover have "(v, u) \<in> rep_rel d \<longleftrightarrow> (v, u) \<in> uconn E" unfolding rel using u v by simp
      moreover have "root_of (parent d) u r \<longleftrightarrow> r = s"
        using us root_of_unique by fastforce
      ultimately show ?thesis by simp
    qed
    then show ?thesis unfolding f_def by auto
  qed
  have "comps V E = f ` set rs"
  proof (rule equalityI; rule subsetI)
    fix C assume "C \<in> comps V E"
    then obtain v where v: "v \<in> V" and C: "C = {u \<in> V. (v, u) \<in> uconn E}"
      unfolding comps_def by blast
    from list_all2_set1[OF l] v vs obtain r where r: "r \<in> set rs" and vr: "root_of (parent d) v r"
      by blast
    from cls[OF v vr] C r show "C \<in> f ` set rs" by blast
  next
    fix C assume "C \<in> f ` set rs"
    then obtain r where r: "r \<in> set rs" and C: "C = f r" by blast
    from list_all2_set2[OF l r] vs obtain v where v: "v \<in> V" and vr: "root_of (parent d) v r"
      by blast
    from cls[OF v vr] C have "C = {u \<in> V. (v, u) \<in> uconn E}" by simp
    with v show "C \<in> comps V E" unfolding comps_def by blast
  qed
  moreover have "inj_on f (set rs)"
  proof (rule inj_onI)
    fix r r' assume r: "r \<in> set rs" and r': "r' \<in> set rs" and e: "f r = f r'"
    from list_all2_set2[OF l r] obtain v where vr: "root_of (parent d) v r" by blast
    then have "parent d r = Some r" by (rule root_of_root)
    then have rr: "root_of (parent d) r r" by (rule root_of_self)
    from inv vr have "r \<in> V" by (rule dsu_inv_root)
    with rr have "r \<in> f r" unfolding f_def by simp
    with e have "root_of (parent d) r r'" unfolding f_def by simp
    with rr show "r = r'" by (rule root_of_unique)
  qed
  ultimately show ?thesis by (simp add: card_image)
qed

text \<open>
  What \<^verbatim>\<open>kruskal_mst\<close> returns and prints on input that has a vertex and an edge,
  every edge between vertices of the set.
\<close>

lemma kruskal_mst_spec:
  assumes ne: "vs \<noteq> []" "es \<noteq> []" and ep: "endpoints_in (set vs) (set es)"
  shows "kruskal_mst vs es =
     Some (Inr ((accepted [] (sort_key weight es),
                 sum_list (map weight (accepted [] (sort_key weight es)))),
                if card (comps (set vs) (set (accepted [] (sort_key weight es)))) > 1 then
                  [CHR 0x0A # ''Warning: The graph is disconnected. MST includes only connected components.'',
                   ''Number of connected components: '' @
                     str_nat (card (comps (set vs) (set (accepted [] (sort_key weight es)))))]
                else []))"
proof -
  let ?V = "set vs" and ?F = "accepted [] (sort_key weight es)"
  from init_inv[of vs] obtain d0 where
    i: "DisjointSetUnion_init vs = Some (Inr d0)" and inv0: "dsu_inv ?V d0"
    and rel0: "rep_rel d0 = Id_on ?V" by blast
  have rel0': "rep_rel d0 = uconn (set []) \<inter> ?V \<times> ?V"
    unfolding rel0 by (auto simp: uconn_empty)
  have ep': "endpoints_in ?V (set (sort_key weight es))" using ep by simp
  from kruskal_loop_spec[OF inv0 rel0' ep'] obtain d1 where
    l: "kruskal_loop (d0, [], 0) (sort_key weight es) =
          Some (Inr (d1, ?F, sum_list (map weight ?F)))"
    and inv1: "dsu_inv ?V d1" and rel1: "rep_rel d1 = uconn (set ?F) \<inter> ?V \<times> ?V"
    by auto
  from find_all_spec[OF inv1 subset_refl] obtain rs d2 where
    fa: "find_all d1 vs = Some (Inr (rs, d2))" and la: "list_all2 (root_of (parent d1)) vs rs"
    by blast
  have c: "card (set rs) = card (comps ?V (set ?F))"
    using inv1 rel1 la refl by (rule roots_card)
  show ?thesis
    unfolding kruskal_mst_def using ne by (simp add: i l fa bind_res_def return_def c Let_def)
qed

subsection \<open>The driver with another addition\<close>

lemma kruskal_step_with_plus: "kruskal_step_with (+) st e = kruskal_step st e"
  unfolding kruskal_step_with_def kruskal_step_def ..

lemma kruskal_loop_with_plus: "kruskal_loop_with (+) st es = kruskal_loop st es"
  by (induction es arbitrary: st) (simp_all add: kruskal_step_with_plus)

text \<open>With the exact addition the driver is \<open>kruskal_mst\<close>.\<close>

lemma kruskal_mst_with_plus: "kruskal_mst_with (+) vs es = kruskal_mst vs es"
  unfolding kruskal_mst_with_def kruskal_mst_def by (simp add: kruskal_loop_with_plus)

lemma kruskal_step_with_rel:
  assumes "kruskal_step (d, acc, t) e = Some (Inr (d', acc', t'))"
  shows "(acc' = acc \<or> acc' = acc @ [e]) \<and>
         kruskal_step_with add (d, acc, s) e =
           Some (Inr (d', acc', if acc' = acc then s else add s (weight e)))"
  using assms unfolding kruskal_step_def kruskal_step_with_def
  by (auto simp: bind_res_def return_def split: option.splits sum.splits prod.splits if_splits)

lemma bind_res_returns:
  assumes "bind_res m f = Some (Inr y)"
  shows "\<exists>x. m = Some (Inr x) \<and> f x = Some (Inr y)"
  using assms unfolding bind_res_def by (auto split: option.splits sum.splits)

lemma kruskal_loop_with_rel:
  assumes "kruskal_loop (d, acc, t) es = Some (Inr (d', acc', t'))"
  shows "\<exists>G. acc' = acc @ G \<and>
           kruskal_loop_with add (d, acc, s) es =
             Some (Inr (d', acc', foldl add s (map weight G)))"
  using assms
proof (induction es arbitrary: d acc t s)
  case Nil
  then show ?case by (simp add: return_def)
next
  case (Cons e es)
  from Cons.prems have "bind_res (kruskal_step (d, acc, t) e) (\<lambda>st'. kruskal_loop st' es) =
      Some (Inr (d', acc', t'))" by simp
  from bind_res_returns[OF this] obtain d1 acc1 t1 where
    st: "kruskal_step (d, acc, t) e = Some (Inr (d1, acc1, t1))"
    and lp: "kruskal_loop (d1, acc1, t1) es = Some (Inr (d', acc', t'))"
    by (metis prod_cases3)
  define s1 where "s1 = (if acc1 = acc then s else add s (weight e))"
  from kruskal_step_with_rel[OF st, of add s] have
    cases: "acc1 = acc \<or> acc1 = acc @ [e]"
    and stw: "kruskal_step_with add (d, acc, s) e = Some (Inr (d1, acc1, s1))"
    unfolding s1_def by simp_all
  from Cons.IH[OF lp, of s1] obtain G1 where
    G1: "acc' = acc1 @ G1"
    and lw: "kruskal_loop_with add (d1, acc1, s1) es =
             Some (Inr (d', acc', foldl add s1 (map weight G1)))" by blast
  have run: "kruskal_loop_with add (d, acc, s) (e # es) =
      Some (Inr (d', acc', foldl add s1 (map weight G1)))"
    using stw lw by (simp add: bind_res_def)
  show ?case
  proof (cases "acc1 = acc")
    case True
    with G1 run show ?thesis unfolding s1_def by auto
  next
    case False
    with cases have "acc1 = acc @ [e]" by simp
    with G1 have "acc' = acc @ (e # G1)" by simp
    moreover from False have "foldl add s1 (map weight G1) = foldl add s (map weight (e # G1))"
      unfolding s1_def by simp
    ultimately show ?thesis using run by metis
  qed
qed

text \<open>
  With any addition on the weights the driver takes the same edges and prints the same
  lines; the total is the weights of the accepted edges, added up from 0 in the order
  of acceptance.
\<close>

lemma kruskal_mst_with_spec:
  assumes ne: "vs \<noteq> []" "es \<noteq> []" and ep: "endpoints_in (set vs) (set es)"
  shows "kruskal_mst_with add vs es =
     Some (Inr ((accepted [] (sort_key weight es),
                 foldl add 0 (map weight (accepted [] (sort_key weight es)))),
                if card (comps (set vs) (set (accepted [] (sort_key weight es)))) > 1 then
                  [CHR 0x0A # ''Warning: The graph is disconnected. MST includes only connected components.'',
                   ''Number of connected components: '' @
                     str_nat (card (comps (set vs) (set (accepted [] (sort_key weight es)))))]
                else []))"
proof -
  let ?V = "set vs" and ?F = "accepted [] (sort_key weight es)"
  from init_inv[of vs] obtain d0 where
    i: "DisjointSetUnion_init vs = Some (Inr d0)" and inv0: "dsu_inv ?V d0"
    and rel0: "rep_rel d0 = Id_on ?V" by blast
  have rel0': "rep_rel d0 = uconn (set []) \<inter> ?V \<times> ?V"
    unfolding rel0 by (auto simp: uconn_empty)
  have ep': "endpoints_in ?V (set (sort_key weight es))" using ep by simp
  from kruskal_loop_spec[OF inv0 rel0' ep'] obtain d1 where
    l: "kruskal_loop (d0, [], 0) (sort_key weight es) =
          Some (Inr (d1, ?F, sum_list (map weight ?F)))"
    and inv1: "dsu_inv ?V d1" and rel1: "rep_rel d1 = uconn (set ?F) \<inter> ?V \<times> ?V"
    by auto
  from kruskal_loop_with_rel[OF l, of add 0] have
    lw: "kruskal_loop_with add (d0, [], 0) (sort_key weight es) =
          Some (Inr (d1, ?F, foldl add 0 (map weight ?F)))" by simp
  from find_all_spec[OF inv1 subset_refl] obtain rs d2 where
    fa: "find_all d1 vs = Some (Inr (rs, d2))" and la: "list_all2 (root_of (parent d1)) vs rs"
    by blast
  have c: "card (set rs) = card (comps ?V (set ?F))"
    using inv1 rel1 la refl by (rule roots_card)
  show ?thesis
    unfolding kruskal_mst_with_def using ne by (simp add: i lw fa bind_res_def return_def c Let_def)
qed

text \<open>Some roundings to the nearest double.\<close>

lemma rounding_examples:
  "round_to_double (- 18014398509481984 + 1) = - 18014398509481984"
  "round_to_double (18014398509481984 + 2) = 18014398509481984"
  "round_to_double (18014398509481984 + 3) = 18014398509481984 + 4"
  "round_to_double (9007199254740992 + 1) = 9007199254740992"
  "round_to_double (9007199254740992 + 3) = 9007199254740992 + 4"
  "round_to_double 37 = 37"
  by code_simp+

subsection \<open>What the accepted edges connect\<close>

lemma uconn_accepted: "uconn (set (accepted acc es)) = uconn (set acc \<union> set es)"
proof (induction es arbitrary: acc)
  case Nil
  show ?case by simp
next
  case (Cons e es)
  show ?case
  proof (cases "(start e, end' e) \<in> uconn (set acc)")
    case True
    have "uconn (set acc) \<subseteq> uconn (set acc \<union> set es)" by (rule uconn_mono) simp
    with True have "(start e, end' e) \<in> uconn (set acc \<union> set es)" by blast
    then have "uconn (insert e (set acc \<union> set es)) = uconn (set acc \<union> set es)"
      by (rule uconn_insert_absorb)
    with True Cons.IH[of acc] show ?thesis by simp
  next
    case False
    with Cons.IH[of "acc @ [e]"] show ?thesis by simp
  qed
qed

lemma comps_cong: "uconn E = uconn E' \<Longrightarrow> comps V E = comps V E'"
  unfolding comps_def by simp

lemma comps_accepted: "comps V (set (accepted [] (sort_key weight es))) = comps V (set es)"
  by (rule comps_cong) (simp add: uconn_accepted)

lemma finite_comps: "finite V \<Longrightarrow> finite (comps V E)"
  unfolding comps_def by simp

lemma card_comps_pos: "finite V \<Longrightarrow> V \<noteq> {} \<Longrightarrow> 1 \<le> card (comps V E)"
  unfolding comps_def by (simp add: Suc_le_eq card_gt_0_iff)

section \<open>Reachable states of the disjoint-set union\<close>

lemma reachable_inv: "reachable vs d \<Longrightarrow> dsu_inv (set vs) d"
proof (induction rule: reachable.induct)
  case (reachable_init d)
  with init_inv[of vs] show ?case by auto
next
  case (reachable_find d v r d')
  from find_dsu_inv[OF reachable_find.IH reachable_find.hyps(2)] reachable_find.hyps(3)
  show ?case by auto
next
  case (reachable_union d a b d')
  from union_dsu_inv[OF reachable_union.IH reachable_union.hyps(2,3)] reachable_union.hyps(4)
  show ?case by auto
qed

lemma root_of_no_cycle:
  assumes "root_of (parent d) v r"
  shows "(v, v) \<notin> (parent_links d)\<^sup>+"
  using assms
proof (induction rule: root_of.induct)
  case (root_of_self v)
  show ?case
  proof
    assume "(v, v) \<in> (parent_links d)\<^sup>+"
    then obtain z where "(v, z) \<in> parent_links d" by (auto dest: tranclD)
    with root_of_self show False unfolding parent_links_def by auto
  qed
next
  case (root_of_step v p r)
  show ?case
  proof
    assume "(v, v) \<in> (parent_links d)\<^sup>+"
    then obtain z where vz: "(v, z) \<in> parent_links d" and zv: "(z, v) \<in> (parent_links d)\<^sup>*"
      by (auto dest: tranclD)
    from vz root_of_step.hyps(1) have "z = p" unfolding parent_links_def by auto
    with zv vz have "(p, p) \<in> (parent_links d)\<^sup>+" by (auto intro: rtrancl_into_trancl1)
    with root_of_step.IH show False by simp
  qed
qed

lemma dsu_inv_no_cycle:
  assumes "dsu_inv V d"
  shows "(v, v) \<notin> (parent_links d)\<^sup>+"
proof (cases "v \<in> V")
  case True
  with assms obtain r where "root_of (parent d) v r" unfolding dsu_inv_def by blast
  then show ?thesis by (rule root_of_no_cycle)
next
  case False
  with assms have "parent d v = None" unfolding dsu_inv_def by auto
  show ?thesis
  proof
    assume "(v, v) \<in> (parent_links d)\<^sup>+"
    then obtain z where "(v, z) \<in> parent_links d" by (auto dest: tranclD)
    with \<open>parent d v = None\<close> show False unfolding parent_links_def by auto
  qed
qed

subsection \<open>Unknown vertices\<close>

lemma union_dsu_unknown_first:
  "parent d v = None \<Longrightarrow> union_dsu d v b = Some (Inl (KeyError v, d))"
  by (simp add: union_dsu_def find_dsu_unknown bind_res_def)

lemma union_dsu_unknown_second:
  assumes inv: "dsu_inv V d" and a: "a \<in> V" and v: "v \<notin> V"
  shows "\<exists>d'. union_dsu d a v = Some (Inl (KeyError v, d')) \<and> dsu_inv V d' \<and>
           rank d' = rank d \<and> rep_rel d' = rep_rel d"
proof -
  from find_dsu_inv[OF inv a] obtain ra d1 where
    f1: "find_dsu d a = Some (Inr (ra, d1))" and inv1: "dsu_inv V d1" and rk1: "rank d1 = rank d"
    and eq1: "\<forall>u s. root_of (parent d1) u s \<longleftrightarrow> root_of (parent d) u s"
    by blast
  from inv1 v have "parent d1 v = None" unfolding dsu_inv_def by auto
  then have "find_dsu d1 v = Some (Inl (KeyError v, d1))" by (rule find_dsu_unknown)
  with f1 have "union_dsu d a v = Some (Inl (KeyError v, d1))"
    by (simp add: union_dsu_def bind_res_def)
  moreover have "rep_rel d1 = rep_rel d" using eq1 by (rule rep_rel_cong)
  ultimately show ?thesis using inv1 rk1 by blast
qed

section \<open>The accepted edges form a forest\<close>

lemma accepted_extends:
  "\<exists>G. accepted acc es = acc @ G \<and> subseq G es \<and> accepted acc G = acc @ G"
proof (induction es arbitrary: acc)
  case Nil
  show ?case by simp
next
  case (Cons e es)
  show ?case
  proof (cases "(start e, end' e) \<in> uconn (set acc)")
    case True
    from Cons.IH[of acc] obtain G where
      "accepted acc es = acc @ G" "subseq G es" "accepted acc G = acc @ G" by blast
    with True show ?thesis by auto
  next
    case False
    from Cons.IH[of "acc @ [e]"] obtain G where
      G: "accepted (acc @ [e]) es = (acc @ [e]) @ G" "subseq G es"
         "accepted (acc @ [e]) G = (acc @ [e]) @ G" by blast
    from False G have "accepted acc (e # es) = acc @ (e # G)" by simp
    moreover from G(2) have "subseq (e # G) (e # es)" by simp
    moreover from False G(3) have "accepted acc (e # G) = acc @ (e # G)" by simp
    ultimately show ?thesis by blast
  qed
qed

lemma accepted_subseq: "subseq (accepted [] es) es"
  using accepted_extends[of "[]" es] by auto

lemma accepted_idem: "accepted [] (accepted [] es) = accepted [] es"
  using accepted_extends[of "[]" es] by auto

lemma accepted_all_Cons:
  assumes "accepted acc (e # fs) = acc @ e # fs"
  shows "(start e, end' e) \<notin> uconn (set acc) \<and> accepted (acc @ [e]) fs = (acc @ [e]) @ fs"
proof (cases "(start e, end' e) \<in> uconn (set acc)")
  case True
  with assms have 1: "accepted acc fs = acc @ e # fs" by simp
  from accepted_extends[of acc fs] obtain G where "accepted acc fs = acc @ G" "subseq G fs"
    by blast
  with 1 have "subseq (e # fs) fs" by simp
  moreover have "\<not> subseq (e # fs) fs" by (rule not_subseq_length) simp
  ultimately show ?thesis by simp
next
  case False
  with assms show ?thesis by simp
qed

lemma acyclic_edges_insert:
  assumes T: "acyclic_edges T" and e: "(start e, end' e) \<notin> uconn T"
  shows "acyclic_edges (insert e T)"
  unfolding acyclic_edges_def
proof
  fix x assume x: "x \<in> insert e T"
  show "(start x, end' x) \<notin> uconn (insert e T - {x})"
  proof (cases "x = e")
    case True
    have "uconn (insert e T - {e}) \<subseteq> uconn T" by (rule uconn_mono) auto
    with e True show ?thesis by auto
  next
    case False
    with x have xT: "x \<in> T" by simp
    with T have nx: "(start x, end' x) \<notin> uconn (T - {x})" unfolding acyclic_edges_def by blast
    have eq: "insert e T - {x} = insert e (T - {x})" using False by auto
    have sub: "uconn (T - {x}) \<subseteq> uconn T" by (rule uconn_mono) auto
    have xe: "(start x, end' x) \<in> uconn T" using xT by (rule uconn_edge)
    then have ex: "(end' x, start x) \<in> uconn T" by (rule uconn_sym)
    show ?thesis
    proof
      assume "(start x, end' x) \<in> uconn (insert e T - {x})"
      then consider "(start x, end' x) \<in> uconn (T - {x})"
        | "(start x, start e) \<in> uconn (T - {x})" "(end' e, end' x) \<in> uconn (T - {x})"
        | "(start x, end' e) \<in> uconn (T - {x})" "(start e, end' x) \<in> uconn (T - {x})"
        unfolding eq uconn_insert by auto
      then show False
      proof cases
        case 1
        with nx show False by simp
      next
        case 2
        with sub have a: "(start x, start e) \<in> uconn T" and b: "(end' e, end' x) \<in> uconn T"
          by auto
        from a have "(start e, start x) \<in> uconn T" by (rule uconn_sym)
        then have "(start e, end' x) \<in> uconn T" using xe by (rule uconn_trans)
        moreover from b have "(end' x, end' e) \<in> uconn T" by (rule uconn_sym)
        ultimately have "(start e, end' e) \<in> uconn T" by (rule uconn_trans)
        with e show False by simp
      next
        case 3
        with sub have a: "(start x, end' e) \<in> uconn T" and b: "(start e, end' x) \<in> uconn T"
          by auto
        from b ex have "(start e, start x) \<in> uconn T" by (rule uconn_trans)
        then have "(start e, end' e) \<in> uconn T" using a by (rule uconn_trans)
        with e show False by simp
      qed
    qed
  qed
qed

lemma accepted_acyclic:
  assumes "acyclic_edges (set acc)" and "distinct acc"
  shows "acyclic_edges (set (accepted acc es)) \<and> distinct (accepted acc es)"
  using assms
proof (induction es arbitrary: acc)
  case Nil
  then show ?case by simp
next
  case (Cons e es)
  show ?case
  proof (cases "(start e, end' e) \<in> uconn (set acc)")
    case True
    with Cons.IH[OF Cons.prems] show ?thesis by simp
  next
    case False
    have "e \<notin> set acc" using False uconn_edge[of e "set acc"] by blast
    with Cons.prems(2) have d: "distinct (acc @ [e])" by simp
    from Cons.prems(1) False have "acyclic_edges (insert e (set acc))"
      by (rule acyclic_edges_insert)
    then have a: "acyclic_edges (set (acc @ [e]))" by simp
    from Cons.IH[OF a d] False show ?thesis by simp
  qed
qed

lemma acyclic_edges_empty: "acyclic_edges {}"
  unfolding acyclic_edges_def by simp

lemma accepted_forest:
  "acyclic_edges (set (accepted [] es)) \<and> distinct (accepted [] es)"
  by (rule accepted_acyclic) (simp_all add: acyclic_edges_empty)

subsection \<open>Replaying a forest\<close>

lemma set_accepted: "set (accepted acc es) \<subseteq> set acc \<union> set es"
proof (induction es arbitrary: acc)
  case Nil
  show ?case by simp
next
  case (Cons e es)
  from Cons.IH[of acc] Cons.IH[of "acc @ [e]"] show ?case by auto
qed

lemma replay_spec:
  assumes "dsu_inv V d" and "rep_rel d = uconn (set acc) \<inter> V \<times> V"
    and "endpoints_in V (set fs)" and "accepted acc fs = acc @ fs"
  shows "replay d fs = Some (Inr True)"
  using assms
proof (induction fs arbitrary: d acc)
  case Nil
  show ?case by (simp add: return_def)
next
  case (Cons e fs)
  note inv = Cons.prems(1) and rel = Cons.prems(2)
  from Cons.prems(3) have a: "start e \<in> V" and b: "end' e \<in> V"
    and rest: "endpoints_in V (set fs)"
    unfolding endpoints_in_def by simp_all
  from accepted_all_Cons[OF Cons.prems(4)] have
    nc: "(start e, end' e) \<notin> uconn (set acc)"
    and all: "accepted (acc @ [e]) fs = (acc @ [e]) @ fs" by simp_all
  from find_dsu_inv[OF inv a] obtain ra d1 where
    f1: "find_dsu d (start e) = Some (Inr (ra, d1))" and ara: "root_of (parent d) (start e) ra"
    and inv1: "dsu_inv V d1"
    and eq1: "\<forall>u s. root_of (parent d1) u s \<longleftrightarrow> root_of (parent d) u s"
    by blast
  from find_dsu_inv[OF inv1 b] obtain rb d2 where
    f2: "find_dsu d1 (end' e) = Some (Inr (rb, d2))" and brb1: "root_of (parent d1) (end' e) rb"
    and inv2: "dsu_inv V d2"
    and eq2: "\<forall>u s. root_of (parent d2) u s \<longleftrightarrow> root_of (parent d1) u s"
    by blast
  have eq: "\<forall>u s. root_of (parent d2) u s \<longleftrightarrow> root_of (parent d) u s"
    using eq1 eq2 by simp
  have rr: "rep_rel d2 = rep_rel d" using eq by (rule rep_rel_cong)
  have brb: "root_of (parent d) (end' e) rb" using brb1 eq1 by simp
  have "(start e, end' e) \<in> rep_rel d \<longleftrightarrow> ra = rb" using ara brb by (rule rep_rel_iff)
  then have "(start e, end' e) \<in> uconn (set acc) \<longleftrightarrow> ra = rb"
    unfolding rel using a b by simp
  with nc have ne: "ra \<noteq> rb" by simp
  from union_dsu_inv[OF inv2 a b] obtain d3 where
    u: "union_dsu d2 (start e) (end' e) = Some (Inr d3)" and inv3: "dsu_inv V d3"
    and r3: "rep_rel d3 = rep_rel d2 \<union>
         {(u, v). (u, start e) \<in> rep_rel d2 \<and> (end' e, v) \<in> rep_rel d2} \<union>
         {(u, v). (u, end' e) \<in> rep_rel d2 \<and> (start e, v) \<in> rep_rel d2}"
    by blast
  have "rep_rel d3 = uconn (insert e (set acc)) \<inter> V \<times> V"
    unfolding r3 rr rel uconn_insert using a b by auto
  then have rel3: "rep_rel d3 = uconn (set (acc @ [e])) \<inter> V \<times> V" by simp
  have "replay d (e # fs) = replay d3 fs"
    by (simp add: f1 f2 u ne bind_res_def)
  with Cons.IH[OF inv3 rel3 rest all] show ?case by simp
qed

subsection \<open>When an edge is accepted\<close>

lemma accepted_append: "accepted acc (xs @ ys) = accepted (accepted acc xs) ys"
  by (induction xs arbitrary: acc) simp_all

lemma accepted_prefix: "\<exists>G. accepted acc es = acc @ G"
  using accepted_extends[of acc es] by blast

text \<open>An edge is taken when the edges before it in the list do not connect its ends.\<close>

lemma accepted_at:
  assumes "(start e, end' e) \<notin> uconn (set xs)"
  shows "e \<in> set (accepted [] (xs @ e # ys))"
proof -
  have "uconn (set (accepted [] xs)) = uconn (set xs)" by (simp add: uconn_accepted)
  with assms have "accepted [] (xs @ e # ys) = accepted (accepted [] xs @ [e]) ys"
    by (simp add: accepted_append)
  moreover obtain G where "accepted (accepted [] xs @ [e]) ys = (accepted [] xs @ [e]) @ G"
    using accepted_prefix by blast
  ultimately show ?thesis by simp
qed

lemma accepted_member:
  assumes "e \<in> set (accepted acc es)"
  shows "e \<in> set acc \<or>
         (\<exists>xs ys. es = xs @ e # ys \<and> (start e, end' e) \<notin> uconn (set acc \<union> set xs))"
  using assms
proof (induction es arbitrary: acc)
  case Nil
  then show ?case by simp
next
  case (Cons x es)
  show ?case
  proof (cases "(start x, end' x) \<in> uconn (set acc)")
    case True
    with Cons.prems have "e \<in> set (accepted acc es)" by simp
    from Cons.IH[OF this] show ?thesis
    proof
      assume "e \<in> set acc"
      then show ?thesis by simp
    next
      assume "\<exists>xs ys. es = xs @ e # ys \<and> (start e, end' e) \<notin> uconn (set acc \<union> set xs)"
      then obtain xs ys where es: "es = xs @ e # ys"
        and nc: "(start e, end' e) \<notin> uconn (set acc \<union> set xs)" by blast
      have "uconn (set acc) \<subseteq> uconn (set acc \<union> set xs)" by (rule uconn_mono) simp
      with True have "(start x, end' x) \<in> uconn (set acc \<union> set xs)" by blast
      then have "uconn (insert x (set acc \<union> set xs)) = uconn (set acc \<union> set xs)"
        by (rule uconn_insert_absorb)
      with nc have "(start e, end' e) \<notin> uconn (set acc \<union> set (x # xs))" by simp
      moreover from es have "x # es = (x # xs) @ e # ys" by simp
      ultimately show ?thesis by blast
    qed
  next
    case False
    with Cons.prems have "e \<in> set (accepted (acc @ [x]) es)" by simp
    from Cons.IH[OF this] show ?thesis
    proof
      assume "e \<in> set (acc @ [x])"
      then consider "e \<in> set acc" | "e = x" by auto
      then show ?thesis
      proof cases
        case 1
        then show ?thesis by simp
      next
        case 2
        with False have "x # es = [] @ e # es \<and> (start e, end' e) \<notin> uconn (set acc \<union> set [])"
          by simp
        then show ?thesis by blast
      qed
    next
      assume "\<exists>xs ys. es = xs @ e # ys \<and>
          (start e, end' e) \<notin> uconn (set (acc @ [x]) \<union> set xs)"
      then obtain xs ys where es: "es = xs @ e # ys"
        and nc: "(start e, end' e) \<notin> uconn (set (acc @ [x]) \<union> set xs)" by blast
      have "set (acc @ [x]) \<union> set xs = set acc \<union> set (x # xs)" by auto
      with nc have "(start e, end' e) \<notin> uconn (set acc \<union> set (x # xs))" by simp
      moreover from es have "x # es = (x # xs) @ e # ys" by simp
      ultimately show ?thesis by blast
    qed
  qed
qed

lemma accepted_iff:
  "e \<in> set (accepted [] es) \<longleftrightarrow>
     (\<exists>xs ys. es = xs @ e # ys \<and> (start e, end' e) \<notin> uconn (set xs))"
proof
  assume "e \<in> set (accepted [] es)"
  from accepted_member[OF this] show
    "\<exists>xs ys. es = xs @ e # ys \<and> (start e, end' e) \<notin> uconn (set xs)" by simp
next
  assume "\<exists>xs ys. es = xs @ e # ys \<and> (start e, end' e) \<notin> uconn (set xs)"
  then obtain xs ys where "es = xs @ e # ys" "(start e, end' e) \<notin> uconn (set xs)" by blast
  then show "e \<in> set (accepted [] es)" using accepted_at by blast
qed

text \<open>An edge whose ends the other edges do not connect is taken.\<close>

lemma accepted_bridge:
  assumes "e \<in> set es" and "(start e, end' e) \<notin> uconn (set es - {e})"
  shows "e \<in> set (accepted [] es)"
proof -
  from assms(1) obtain xs ys where es: "es = xs @ e # ys" and first: "e \<notin> set xs"
    by (auto dest: split_list_first)
  have "uconn (set xs) \<subseteq> uconn (set es - {e})"
    by (rule uconn_mono) (use es first in auto)
  with assms(2) have "(start e, end' e) \<notin> uconn (set xs)" by blast
  then show ?thesis unfolding es by (rule accepted_at)
qed

text \<open>Two edges that are both accepted stand in the result in the order of the scan.\<close>

lemma accepted_both:
  assumes "(start e1, end' e1) \<notin> uconn (set xs)"
    and "(start e2, end' e2) \<notin> uconn (set (xs @ e1 # ys))"
  shows "\<exists>fs gs hs. accepted [] (xs @ e1 # ys @ e2 # zs) = fs @ e1 # gs @ e2 # hs"
proof -
  let ?A = "accepted [] xs" and ?P = "accepted [] (xs @ e1 # ys)"
  have "uconn (set ?A) = uconn (set xs)" by (simp add: uconn_accepted)
  with assms(1) have P: "?P = accepted (?A @ [e1]) ys" by (simp add: accepted_append)
  obtain G where G: "accepted (?A @ [e1]) ys = (?A @ [e1]) @ G" using accepted_prefix by blast
  have "uconn (set ?P) = uconn (set (xs @ e1 # ys))" by (simp add: uconn_accepted)
  with assms(2) have "(start e2, end' e2) \<notin> uconn (set ?P)" by simp
  moreover have "accepted [] (xs @ e1 # ys @ e2 # zs) = accepted ?P (e2 # zs)"
    using accepted_append[of "[]" "xs @ e1 # ys" "e2 # zs"] by simp
  ultimately have F: "accepted [] (xs @ e1 # ys @ e2 # zs) = accepted (?P @ [e2]) zs" by simp
  obtain H where H: "accepted (?P @ [e2]) zs = (?P @ [e2]) @ H" using accepted_prefix by blast
  have PG: "?P = ?A @ e1 # G" using P G by simp
  have "accepted [] (xs @ e1 # ys @ e2 # zs) = (?P @ [e2]) @ H" using F H by simp
  also have "\<dots> = ?A @ e1 # G @ e2 # H" by (simp only: PG) simp
  finally show ?thesis by blast
qed

section \<open>Counting components\<close>

lemma comps_component: "comps V E = component V E ` V"
  unfolding comps_def component_def by simp

lemma component_self: "v \<in> V \<Longrightarrow> v \<in> component V E v"
  unfolding component_def by (simp add: uconn_refl)

lemma component_eq_iff:
  assumes "v \<in> V" and "a \<in> V"
  shows "component V E v = component V E a \<longleftrightarrow> (v, a) \<in> uconn E"
proof
  assume "component V E v = component V E a"
  with component_self[OF assms(2), of E] have "a \<in> component V E v" by simp
  then show "(v, a) \<in> uconn E" unfolding component_def by simp
next
  assume va: "(v, a) \<in> uconn E"
  then have av: "(a, v) \<in> uconn E" by (rule uconn_sym)
  show "component V E v = component V E a"
    unfolding component_def using va av by (auto intro: uconn_trans)
qed

lemma component_insert:
  assumes nc: "(start e, end' e) \<notin> uconn E"
  shows "component V (insert e E) v =
     (if (v, start e) \<in> uconn E \<or> (v, end' e) \<in> uconn E
      then component V E (start e) \<union> component V E (end' e)
      else component V E v)"
proof (cases "(v, start e) \<in> uconn E")
  case True
  then have sv: "(start e, v) \<in> uconn E" by (rule uconn_sym)
  have nb: "(v, end' e) \<notin> uconn E"
  proof
    assume "(v, end' e) \<in> uconn E"
    with sv have "(start e, end' e) \<in> uconn E" by (rule uconn_trans)
    with nc show False by simp
  qed
  have "(v, u) \<in> uconn (insert e E) \<longleftrightarrow> (start e, u) \<in> uconn E \<or> (end' e, u) \<in> uconn E" for u
    unfolding uconn_insert using True sv nb by (auto intro: uconn_trans)
  with True show ?thesis unfolding component_def by auto
next
  case False
  note na = False
  show ?thesis
  proof (cases "(v, end' e) \<in> uconn E")
    case True
    then have ev: "(end' e, v) \<in> uconn E" by (rule uconn_sym)
    have "(v, u) \<in> uconn (insert e E) \<longleftrightarrow> (start e, u) \<in> uconn E \<or> (end' e, u) \<in> uconn E" for u
      unfolding uconn_insert using True ev na by (auto intro: uconn_trans)
    with True show ?thesis unfolding component_def by auto
  next
    case False
    have "(v, u) \<in> uconn (insert e E) \<longleftrightarrow> (v, u) \<in> uconn E" for u
      unfolding uconn_insert using False na by auto
    with False na show ?thesis unfolding component_def by auto
  qed
qed

lemma comps_insert_new:
  assumes fin: "finite V" and a: "start e \<in> V" and b: "end' e \<in> V"
    and nc: "(start e, end' e) \<notin> uconn E"
  shows "card (comps V E) = Suc (card (comps V (insert e E)))"
proof -
  let ?A = "component V E (start e)" and ?B = "component V E (end' e)"
  let ?rest = "comps V E - {?A, ?B}"
  have AB: "?A \<noteq> ?B" using nc component_eq_iff[OF a b, of E] by simp
  have Ain: "?A \<in> comps V E" and Bin: "?B \<in> comps V E"
    unfolding comps_component using a b by simp_all
  have merged_class: "component V E v = ?A \<or> component V E v = ?B"
    if "v \<in> V" "(v, start e) \<in> uconn E \<or> (v, end' e) \<in> uconn E" for v
    using that component_eq_iff[OF that(1) a, of E] component_eq_iff[OF that(1) b, of E] by blast
  have other_class: "component V E v \<noteq> ?A \<and> component V E v \<noteq> ?B"
    if "v \<in> V" "\<not> ((v, start e) \<in> uconn E \<or> (v, end' e) \<in> uconn E)" for v
    using that component_eq_iff[OF that(1) a, of E] component_eq_iff[OF that(1) b, of E] by blast
  have new: "comps V (insert e E) = insert (?A \<union> ?B) ?rest"
  proof (rule equalityI; rule subsetI)
    fix C assume "C \<in> comps V (insert e E)"
    then obtain v where v: "v \<in> V" and C: "C = component V (insert e E) v"
      unfolding comps_component by blast
    show "C \<in> insert (?A \<union> ?B) ?rest"
    proof (cases "(v, start e) \<in> uconn E \<or> (v, end' e) \<in> uconn E")
      case True
      then have "C = ?A \<union> ?B" unfolding C component_insert[OF nc] by simp
      then show ?thesis by simp
    next
      case False
      then have "C = component V E v" unfolding C component_insert[OF nc] by simp
      moreover have "component V E v \<in> comps V E" unfolding comps_component using v by simp
      ultimately show ?thesis using other_class[OF v False] by simp
    qed
  next
    fix C assume "C \<in> insert (?A \<union> ?B) ?rest"
    then consider "C = ?A \<union> ?B" | "C \<in> ?rest" by blast
    then show "C \<in> comps V (insert e E)"
    proof cases
      case 1
      have "component V (insert e E) (start e) = ?A \<union> ?B"
        unfolding component_insert[OF nc] by (simp add: uconn_refl)
      with 1 a show ?thesis unfolding comps_component by blast
    next
      case 2
      then obtain v where v: "v \<in> V" and C: "C = component V E v"
        and ne: "component V E v \<noteq> ?A" "component V E v \<noteq> ?B"
        unfolding comps_component by blast
      from merged_class[OF v] ne
      have "\<not> ((v, start e) \<in> uconn E \<or> (v, end' e) \<in> uconn E)" by blast
      then have "component V (insert e E) v = component V E v"
        unfolding component_insert[OF nc] by simp
      with C v show ?thesis unfolding comps_component by blast
    qed
  qed
  have notin: "?A \<union> ?B \<notin> ?rest"
  proof
    assume "?A \<union> ?B \<in> ?rest"
    then obtain v where v: "v \<in> V" and C: "?A \<union> ?B = component V E v"
      and ne: "component V E v \<noteq> ?A"
      unfolding comps_component by blast
    from component_self[OF a, of E] C have "start e \<in> component V E v" by blast
    then have "(v, start e) \<in> uconn E" unfolding component_def by simp
    with component_eq_iff[OF v a, of E] ne show False by simp
  qed
  have finc: "finite (comps V E)" using fin by (rule finite_comps)
  then have finr: "finite ?rest" by simp
  have "card (comps V (insert e E)) = Suc (card ?rest)"
    unfolding new using finr notin by simp
  moreover have "card ?rest = card (comps V E) - 2"
    using finc Ain Bin AB by (simp add: card_Diff_insert)
  moreover have "2 \<le> card (comps V E)"
  proof -
    have "{?A, ?B} \<subseteq> comps V E" using Ain Bin by simp
    then have "card {?A, ?B} \<le> card (comps V E)" using finc by (rule card_mono[rotated])
    with AB show ?thesis by simp
  qed
  ultimately show ?thesis by simp
qed

lemma comps_insert_le:
  assumes "finite V" and "start e \<in> V" and "end' e \<in> V"
  shows "card (comps V (insert e E)) \<le> card (comps V E)"
proof (cases "(start e, end' e) \<in> uconn E")
  case True
  then have "uconn (insert e E) = uconn E" by (rule uconn_insert_absorb)
  then have "comps V (insert e E) = comps V E" by (rule comps_cong)
  then show ?thesis by simp
next
  case False
  from comps_insert_new[OF assms False] show ?thesis by simp
qed

lemma comps_empty: "comps V {} = (\<lambda>v. {v}) ` V"
  unfolding comps_def uconn_empty by auto

lemma card_comps_empty: "card (comps V {}) = card V"
  unfolding comps_empty by (rule card_image) simp

lemma acyclic_edges_subset:
  assumes "acyclic_edges T" and "S \<subseteq> T"
  shows "acyclic_edges S"
  unfolding acyclic_edges_def
proof
  fix x assume x: "x \<in> S"
  have "uconn (S - {x}) \<subseteq> uconn (T - {x})" by (rule uconn_mono) (use assms(2) in auto)
  moreover from x assms have "(start x, end' x) \<notin> uconn (T - {x})"
    unfolding acyclic_edges_def by blast
  ultimately show "(start x, end' x) \<notin> uconn (S - {x})" by blast
qed

text \<open>A forest on \<open>V\<close> with \<open>k\<close> edges has \<open>|V| - k\<close> components.\<close>

lemma forest_card:
  assumes "finite T" and "finite V" and "endpoints_in V T" and "acyclic_edges T"
  shows "card T + card (comps V T) = card V"
  using assms(1,3,4)
proof (induction T)
  case empty
  show ?case by (simp add: card_comps_empty)
next
  case (insert e T)
  from insert.prems(1) have a: "start e \<in> V" and b: "end' e \<in> V" and ep: "endpoints_in V T"
    unfolding endpoints_in_def by simp_all
  from insert.prems(2) have ac: "acyclic_edges T" by (rule acyclic_edges_subset) auto
  from insert.prems(2) have "(start e, end' e) \<notin> uconn (insert e T - {e})"
    unfolding acyclic_edges_def by blast
  moreover have "insert e T - {e} = T" using insert.hyps(2) by auto
  ultimately have nc: "(start e, end' e) \<notin> uconn T" by simp
  from comps_insert_new[OF assms(2) a b nc] insert.IH[OF ep ac] insert.hyps(1,2)
  show ?case by simp
qed

lemma comps_union_le:
  assumes "finite D" and "finite V" and "endpoints_in V D"
  shows "card (comps V (E \<union> D)) \<le> card (comps V E)"
  using assms(1,3)
proof (induction D)
  case empty
  show ?case by simp
next
  case (insert e D)
  from insert.prems have a: "start e \<in> V" and b: "end' e \<in> V" and ep: "endpoints_in V D"
    unfolding endpoints_in_def by simp_all
  have "card (comps V (insert e (E \<union> D))) \<le> card (comps V (E \<union> D))"
    using assms(2) a b by (rule comps_insert_le)
  with insert.IH[OF ep] show ?case by simp
qed

lemma comps_mono:
  assumes "S \<subseteq> E" and "finite E" and "finite V" and "endpoints_in V E"
  shows "card (comps V E) \<le> card (comps V S)"
proof -
  from assms(1) have "E = S \<union> E" by auto
  then have "card (comps V E) = card (comps V (S \<union> E))" by simp
  also have "\<dots> \<le> card (comps V S)" using assms(2,3,4) by (rule comps_union_le)
  finally show ?thesis .
qed

lemma comps_connected:
  assumes "connected_graph V E" and "V \<noteq> {}"
  shows "card (comps V E) = 1"
proof -
  have "component V E v = V" if "v \<in> V" for v
    using assms(1) that unfolding component_def connected_graph_def by auto
  then have "comps V E = {V}" unfolding comps_component using assms(2) by auto
  then show ?thesis by simp
qed

section \<open>Minimality of the accepted edges\<close>

text \<open>
  In a list sorted by weight the accepted edges of weight at most \<open>t\<close> connect what
  all edges of weight at most \<open>t\<close> connect.
\<close>

lemma accepted_threshold:
  assumes "sorted (map weight es)" and "\<forall>x\<in>set acc. \<forall>e\<in>set es. weight x \<le> weight e"
  shows "uconn (set (filter (\<lambda>e. weight e \<le> t) (accepted acc es))) =
         uconn (set (filter (\<lambda>e. weight e \<le> t) acc) \<union> set (filter (\<lambda>e. weight e \<le> t) es))"
  using assms
proof (induction es arbitrary: acc)
  case Nil
  show ?case by simp
next
  case (Cons e es)
  from Cons.prems(1) have srt: "sorted (map weight es)" and le: "\<forall>x\<in>set es. weight e \<le> weight x"
    by simp_all
  from Cons.prems(2) have acc_es: "\<forall>x\<in>set acc. \<forall>e\<in>set es. weight x \<le> weight e"
    and acc_e: "\<forall>x\<in>set acc. weight x \<le> weight e" by simp_all
  show ?case
  proof (cases "(start e, end' e) \<in> uconn (set acc)")
    case True
    note IH = Cons.IH[OF srt acc_es]
    show ?thesis
    proof (cases "weight e \<le> t")
      case False
      with True IH show ?thesis by simp
    next
      case le_t: True
      from acc_e le_t have "\<forall>x\<in>set acc. weight x \<le> t" by auto
      then have "filter (\<lambda>e. weight e \<le> t) acc = acc" by (simp add: filter_id_conv)
      with True have "(start e, end' e) \<in> uconn (set (filter (\<lambda>e. weight e \<le> t) acc))" by simp
      moreover have "uconn (set (filter (\<lambda>e. weight e \<le> t) acc)) \<subseteq>
          uconn (set (filter (\<lambda>e. weight e \<le> t) acc) \<union> set (filter (\<lambda>e. weight e \<le> t) es))"
        by (rule uconn_mono) simp
      ultimately have "(start e, end' e) \<in>
          uconn (set (filter (\<lambda>e. weight e \<le> t) acc) \<union> set (filter (\<lambda>e. weight e \<le> t) es))"
        by blast
      then have "uconn (insert e (set (filter (\<lambda>e. weight e \<le> t) acc) \<union> set (filter (\<lambda>e. weight e \<le> t) es))) =
          uconn (set (filter (\<lambda>e. weight e \<le> t) acc) \<union> set (filter (\<lambda>e. weight e \<le> t) es))"
        by (rule uconn_insert_absorb)
      with True IH le_t show ?thesis by simp
    qed
  next
    case False
    have "\<forall>x\<in>set (acc @ [e]). \<forall>e\<in>set es. weight x \<le> weight e" using acc_es le by auto
    from Cons.IH[OF srt this] False show ?thesis by (simp add: Un_commute Un_left_commute insert_commute)
  qed
qed

lemma accepted_threshold_sorted:
  "uconn (set (filter (\<lambda>e. weight e \<le> t) (accepted [] (sort_key weight es)))) =
   uconn (set (filter (\<lambda>e. weight e \<le> t) es))"
  using accepted_threshold[of "sort_key weight es" "[]" t] by simp

text \<open>Summing weights layer by layer.\<close>

lemma sum_gap:
  assumes "finite S" and "\<forall>e\<in>S. m \<le> weight e \<and> weight e \<le> M"
  shows "(\<Sum>e\<in>S. M - weight e) = (\<Sum>t\<in>{m..<M}. int (card {e \<in> S. weight e \<le> t}))"
proof -
  have "(\<Sum>t\<in>{m..<M}. int (card {e \<in> S. weight e \<le> t})) =
        (\<Sum>t\<in>{m..<M}. \<Sum>e\<in>S. if weight e \<le> t then 1 else 0)"
    using assms(1) by (simp add: sum.inter_filter[symmetric])
  also have "\<dots> = (\<Sum>e\<in>S. \<Sum>t\<in>{m..<M}. if weight e \<le> t then 1 else 0)"
    by (rule sum.swap)
  also have "\<dots> = (\<Sum>e\<in>S. M - weight e)"
  proof (rule sum.cong[OF refl])
    fix e assume "e \<in> S"
    with assms(2) have b: "m \<le> weight e" "weight e \<le> M" by simp_all
    have "(\<Sum>t\<in>{m..<M}. if weight e \<le> t then 1 else 0) = int (card {t \<in> {m..<M}. weight e \<le> t})"
      by (simp add: sum.inter_filter[symmetric])
    also have "{t \<in> {m..<M}. weight e \<le> t} = {weight e..<M}" using b by auto
    also have "int (card {weight e..<M}) = M - weight e" using b by simp
    finally show "(\<Sum>t\<in>{m..<M}. if weight e \<le> t then 1 else 0) = M - weight e" .
  qed
  finally show ?thesis by simp
qed

lemma layer_cake:
  fixes F T :: "'v GraphEdge set"
  assumes F: "finite F" and T: "finite T" and c: "card F = card T"
    and dom: "\<And>t. card {e \<in> T. weight e \<le> t} \<le> card {e \<in> F. weight e \<le> t}"
  shows "total F \<le> total T"
proof -
  have fin: "finite (weight ` (F \<union> T))" using F T by simp
  define M where "M = Max (insert 0 (weight ` (F \<union> T)))"
  define m where "m = Min (insert 0 (weight ` (F \<union> T)))"
  have M: "\<forall>e\<in>F \<union> T. weight e \<le> M"
    unfolding M_def using fin by (auto intro!: Max_ge)
  have m: "\<forall>e\<in>F \<union> T. m \<le> weight e"
    unfolding m_def using fin by (auto intro!: Min_le)
  have gF: "(\<Sum>e\<in>F. M - weight e) = (\<Sum>t\<in>{m..<M}. int (card {e \<in> F. weight e \<le> t}))"
    by (rule sum_gap[OF F]) (use m M in auto)
  have gT: "(\<Sum>e\<in>T. M - weight e) = (\<Sum>t\<in>{m..<M}. int (card {e \<in> T. weight e \<le> t}))"
    by (rule sum_gap[OF T]) (use m M in auto)
  have "(\<Sum>t\<in>{m..<M}. int (card {e \<in> T. weight e \<le> t})) \<le>
        (\<Sum>t\<in>{m..<M}. int (card {e \<in> F. weight e \<le> t}))"
    by (rule sum_mono) (simp add: dom)
  then have "(\<Sum>e\<in>T. M - weight e) \<le> (\<Sum>e\<in>F. M - weight e)" unfolding gF gT .
  then have "int (card T) * M - total T \<le> int (card F) * M - total F"
    unfolding total_def by (simp add: sum_subtractf)
  with c show ?thesis by simp
qed

lemma endpoints_in_subset: "endpoints_in V E \<Longrightarrow> S \<subseteq> E \<Longrightarrow> endpoints_in V S"
  unfolding endpoints_in_def by blast

lemma spanning_tree_card:
  assumes "finite V" and "V \<noteq> {}" and "finite E" and "endpoints_in V E"
    and "spanning_tree V E T"
  shows "card T + 1 = card V"
proof -
  from assms(5) have sub: "T \<subseteq> E" and ac: "acyclic_edges T" and con: "connected_graph V T"
    unfolding spanning_tree_def by simp_all
  from sub assms(3) have fin: "finite T" by (rule finite_subset)
  from assms(4) sub have ep: "endpoints_in V T" by (rule endpoints_in_subset)
  from forest_card[OF fin assms(1) ep ac] comps_connected[OF con assms(2)] show ?thesis by simp
qed

lemma accepted_spanning_tree:
  assumes "connected_graph V (set es)"
  shows "spanning_tree V (set es) (set (accepted [] (sort_key weight es)))"
proof -
  let ?F = "accepted [] (sort_key weight es)"
  have "set ?F \<subseteq> set es" using set_accepted[of "[]" "sort_key weight es"] by simp
  moreover have "acyclic_edges (set ?F)" using accepted_forest by blast
  moreover have "uconn (set ?F) = uconn (set es)" by (simp add: uconn_accepted)
  then have "connected_graph V (set ?F)" using assms unfolding connected_graph_def by simp
  ultimately show ?thesis unfolding spanning_tree_def by simp
qed

lemma accepted_minimal:
  assumes finV: "finite V" and ne: "V \<noteq> {}" and ep: "endpoints_in V (set es)"
    and con: "connected_graph V (set es)" and T: "spanning_tree V (set es) T"
  shows "total (set (accepted [] (sort_key weight es))) \<le> total T"
proof -
  let ?F = "set (accepted [] (sort_key weight es))"
  have F: "spanning_tree V (set es) ?F" using con by (rule accepted_spanning_tree)
  have finE: "finite (set es)" by simp
  from F have subF: "?F \<subseteq> set es" and acF: "acyclic_edges ?F" unfolding spanning_tree_def by simp_all
  from T have subT: "T \<subseteq> set es" and acT: "acyclic_edges T" unfolding spanning_tree_def by simp_all
  have finF: "finite ?F" by simp
  have finT: "finite T" using subT finE by (rule finite_subset)
  have c: "card ?F = card T"
    using spanning_tree_card[OF finV ne finE ep F] spanning_tree_card[OF finV ne finE ep T] by simp
  have dom: "card {e \<in> T. weight e \<le> t} \<le> card {e \<in> ?F. weight e \<le> t}" for t
  proof -
    let ?Ft = "{e \<in> ?F. weight e \<le> t}" and ?Tt = "{e \<in> T. weight e \<le> t}"
    let ?Et = "{e \<in> set es. weight e \<le> t}"
    have epE: "endpoints_in V ?Et" using ep by (rule endpoints_in_subset) auto
    have epF: "endpoints_in V ?Ft" using ep by (rule endpoints_in_subset) (use subF in auto)
    have epT: "endpoints_in V ?Tt" using ep by (rule endpoints_in_subset) (use subT in auto)
    have aF: "acyclic_edges ?Ft" using acF by (rule acyclic_edges_subset) auto
    have aT: "acyclic_edges ?Tt" using acT by (rule acyclic_edges_subset) auto
    have cF: "card ?Ft + card (comps V ?Ft) = card V"
      by (rule forest_card[OF _ finV epF aF]) simp
    have cT: "card ?Tt + card (comps V ?Tt) = card V"
      by (rule forest_card[OF _ finV epT aT]) (use finT in simp)
    have "uconn ?Ft = uconn ?Et"
      using accepted_threshold_sorted[of t es] by (simp add: set_filter)
    then have "comps V ?Ft = comps V ?Et" by (rule comps_cong)
    moreover have "card (comps V ?Et) \<le> card (comps V ?Tt)"
      by (rule comps_mono[OF _ _ finV epE]) (use subT in auto)
    ultimately have "card (comps V ?Ft) \<le> card (comps V ?Tt)" by simp
    with cF cT show ?thesis by linarith
  qed
  from finF finT c dom show ?thesis by (rule layer_cake)
qed

section \<open>The claims\<close>

subsection \<open>C1: a minimum spanning tree on connected graphs\<close>

text \<open>
  C1 (the claim as the code has it). On a connected graph (a vertex, an edge, every
  edge between vertices of the set) \<^verbatim>\<open>kruskal_mst\<close> returns a spanning tree of the
  graph with \<open>|vertices| - 1\<close> edges, and no spanning tree of the graph weighs less.
  No warning is printed. With integer weights, whose addition is exact, the total
  weight returned is the weight of that tree. With any other addition of the weights
  the tree is the same, and the total returned is its weights added up from 0 in the
  order of acceptance.
\<close>

theorem kruskal_mst_minimum:
  assumes "vertices \<noteq> []" and "edges \<noteq> []"
    and "\<forall>e\<in>set edges. start e \<in> set vertices \<and> end' e \<in> set vertices"
    and "connected_graph (set vertices) (set edges)"
  shows "\<exists>forest total_weight.
           kruskal_mst vertices edges = Some (Inr ((forest, total_weight), [])) \<and>
           length forest = card (set vertices) - 1 \<and>
           distinct forest \<and>
           spanning_tree (set vertices) (set edges) (set forest) \<and>
           total_weight = total (set forest) \<and>
           (\<forall>T. spanning_tree (set vertices) (set edges) T \<longrightarrow> total_weight \<le> total T) \<and>
           (\<forall>add. kruskal_mst_with add vertices edges =
              Some (Inr ((forest, foldl add 0 (map weight forest)), [])))"
proof -
  let ?V = "set vertices" and ?F = "accepted [] (sort_key weight edges)"
  from assms(3) have ep: "endpoints_in ?V (set edges)" unfolding endpoints_in_def .
  have finV: "finite ?V" by simp
  have ne: "?V \<noteq> {}" using assms(1) by simp
  have st: "spanning_tree ?V (set edges) (set ?F)" using assms(4) by (rule accepted_spanning_tree)
  have d: "distinct ?F" using accepted_forest by blast
  have "card (set ?F) + 1 = card ?V"
    by (rule spanning_tree_card[OF finV ne _ ep st]) simp
  with d have len: "length ?F = card ?V - 1" by (simp add: distinct_card)
  have tot: "sum_list (map weight ?F) = total (set ?F)"
    unfolding total_def using d by (rule sum_list_distinct_conv_sum_set)
  have mini: "\<forall>T. spanning_tree ?V (set edges) T \<longrightarrow> sum_list (map weight ?F) \<le> total T"
    unfolding tot using accepted_minimal[OF finV ne ep assms(4)] by blast
  from st have "connected_graph ?V (set ?F)" unfolding spanning_tree_def by simp
  then have one: "card (comps ?V (set ?F)) = 1" using ne by (rule comps_connected)
  have run: "kruskal_mst vertices edges = Some (Inr ((?F, sum_list (map weight ?F)), []))"
    using kruskal_mst_spec[OF assms(1,2) ep] unfolding one by simp
  have runw: "\<forall>add. kruskal_mst_with add vertices edges =
      Some (Inr ((?F, foldl add 0 (map weight ?F)), []))"
    using kruskal_mst_with_spec[OF assms(1,2) ep] unfolding one by simp
  from run len d st tot mini runw show ?thesis by blast
qed

theorem kruskal_mst_minimum_witness:
  "\<exists>forest total_weight.
     kruskal_mst [''a'', ''b'', ''c'']
       [\<lparr>weight = 3, start = ''a'', end' = ''c''\<rparr>,
        \<lparr>weight = 1, start = ''a'', end' = ''b''\<rparr>,
        \<lparr>weight = 2, start = ''b'', end' = ''c''\<rparr>] =
       Some (Inr ((forest, total_weight), [])) \<and>
     length forest = card (set [''a'', ''b'', ''c'']) - 1 \<and>
     distinct forest \<and>
     spanning_tree (set [''a'', ''b'', ''c''])
       (set [\<lparr>weight = 3, start = ''a'', end' = ''c''\<rparr>,
             \<lparr>weight = 1, start = ''a'', end' = ''b''\<rparr>,
             \<lparr>weight = 2, start = ''b'', end' = ''c''\<rparr>]) (set forest) \<and>
     total_weight = total (set forest) \<and>
     (\<forall>T. spanning_tree (set [''a'', ''b'', ''c''])
            (set [\<lparr>weight = 3, start = ''a'', end' = ''c''\<rparr>,
                  \<lparr>weight = 1, start = ''a'', end' = ''b''\<rparr>,
                  \<lparr>weight = 2, start = ''b'', end' = ''c''\<rparr>]) T \<longrightarrow>
          total_weight \<le> total T) \<and>
     (\<forall>add. kruskal_mst_with add [''a'', ''b'', ''c'']
            [\<lparr>weight = 3, start = ''a'', end' = ''c''\<rparr>,
             \<lparr>weight = 1, start = ''a'', end' = ''b''\<rparr>,
             \<lparr>weight = 2, start = ''b'', end' = ''c''\<rparr>] =
          Some (Inr ((forest, foldl add 0 (map weight forest)), [])))"
proof -
  let ?ac = "\<lparr>weight = 3, start = ''a'', end' = ''c''\<rparr>"
  let ?ab = "\<lparr>weight = 1, start = ''a'', end' = ''b''\<rparr>"
  let ?bc = "\<lparr>weight = 2, start = ''b'', end' = ''c''\<rparr>"
  let ?E = "set [?ac, ?ab, ?bc]"
  have ab: "(''a'', ''b'') \<in> uconn ?E" using uconn_edge[of ?ab ?E] by simp
  have bc: "(''b'', ''c'') \<in> uconn ?E" using uconn_edge[of ?bc ?E] by simp
  have ac: "(''a'', ''c'') \<in> uconn ?E" using uconn_edge[of ?ac ?E] by simp
  from ab have ba: "(''b'', ''a'') \<in> uconn ?E" by (rule uconn_sym)
  from bc have cb: "(''c'', ''b'') \<in> uconn ?E" by (rule uconn_sym)
  from ac have ca: "(''c'', ''a'') \<in> uconn ?E" by (rule uconn_sym)
  have con: "connected_graph (set [''a'', ''b'', ''c'']) ?E"
    unfolding connected_graph_def using ab bc ac ba cb ca by (simp add: uconn_refl)
  show ?thesis
    by (rule kruskal_mst_minimum[OF _ _ _ con]) simp_all
qed

text \<open>
  C1 as stated fails when the weights are floats. On the path \<open>a - b - c - d\<close> with
  the weights \<open>1.0\<close>, \<open>-2^54\<close>, \<open>1.0\<close> the code returns the three edges and the
  total \<open>-2^54\<close>: each \<^verbatim>\<open>+= 1.0\<close> is rounded away. The three edges weigh
  \<open>-2^54 + 2\<close>, and no spanning tree of the path weighs \<open>-2^54\<close> or less.
\<close>

theorem kruskal_mst_float_counterexample:
  "kruskal_mst_with float_add [''a'', ''b'', ''c'', ''d'']
     [\<lparr>weight = 1, start = ''a'', end' = ''b''\<rparr>,
      \<lparr>weight = - 18014398509481984, start = ''b'', end' = ''c''\<rparr>,
      \<lparr>weight = 1, start = ''c'', end' = ''d''\<rparr>] =
   Some (Inr (([\<lparr>weight = - 18014398509481984, start = ''b'', end' = ''c''\<rparr>,
                \<lparr>weight = 1, start = ''a'', end' = ''b''\<rparr>,
                \<lparr>weight = 1, start = ''c'', end' = ''d''\<rparr>], - 18014398509481984), [])) \<and>
   total (set [\<lparr>weight = - 18014398509481984, start = ''b'', end' = ''c''\<rparr>,
               \<lparr>weight = 1, start = ''a'', end' = ''b''\<rparr>,
               \<lparr>weight = 1, start = ''c'', end' = ''d''\<rparr>]) = - 18014398509481984 + 2 \<and>
   \<not> (\<exists>T. spanning_tree (set [''a'', ''b'', ''c'', ''d''])
            (set [\<lparr>weight = 1, start = ''a'', end' = ''b''\<rparr>,
                  \<lparr>weight = - 18014398509481984, start = ''b'', end' = ''c''\<rparr>,
                  \<lparr>weight = 1, start = ''c'', end' = ''d''\<rparr>]) T \<and>
          total T \<le> - 18014398509481984)"
proof -
  let ?ab = "\<lparr>weight = 1, start = ''a'', end' = ''b''\<rparr>"
  let ?bc = "\<lparr>weight = - 18014398509481984, start = ''b'', end' = ''c''\<rparr>"
  let ?cd = "\<lparr>weight = 1, start = ''c'', end' = ''d''\<rparr>"
  let ?V = "set [''a'', ''b'', ''c'', ''d'']"
  let ?E = "set [?ab, ?bc, ?cd]"
  have "returns (kruskal_mst_with float_add [''a'', ''b'', ''c'', ''d''] [?ab, ?bc, ?cd])
          (([?bc, ?ab, ?cd], - 18014398509481984), [])"
    by code_simp
  then have run: "kruskal_mst_with float_add [''a'', ''b'', ''c'', ''d''] [?ab, ?bc, ?cd] =
      Some (Inr (([?bc, ?ab, ?cd], - 18014398509481984), []))"
    unfolding returns_iff .
  have tot: "total (set [?bc, ?ab, ?cd]) = - 18014398509481984 + 2"
    unfolding total_def by simp
  have ep: "endpoints_in ?V ?E" unfolding endpoints_in_def by simp
  have none: "\<not> (\<exists>T. spanning_tree ?V ?E T \<and> total T \<le> - 18014398509481984)"
  proof
    assume "\<exists>T. spanning_tree ?V ?E T \<and> total T \<le> - 18014398509481984"
    then obtain T where T: "spanning_tree ?V ?E T" and le: "total T \<le> - 18014398509481984"
      by blast
    have "card T + 1 = card ?V"
      by (rule spanning_tree_card[OF _ _ _ ep T]) simp_all
    then have "card T = 3" by simp
    moreover have "card ?E = 3" by simp
    moreover from T have "T \<subseteq> ?E" unfolding spanning_tree_def by simp
    ultimately have "T = ?E" by (simp add: card_subset_eq)
    then have "total T = - 18014398509481984 + 2" unfolding total_def by simp
    with le show False by simp
  qed
  from run tot none show ?thesis by (intro conjI)
qed

subsection \<open>C2: the forest has no cycle\<close>

text \<open>
  C2. On every input whose edges join vertices of the set, the forest returned by
  \<^verbatim>\<open>kruskal_mst\<close> has no cycle: replayed in order through a fresh DSU over the
  vertices, each of its edges joins two distinct roots. As a set of edges the forest is
  acyclic, and no edge occurs in it twice.
\<close>

theorem kruskal_mst_forest_acyclic:
  assumes "\<forall>e\<in>set edges. start e \<in> set vertices \<and> end' e \<in> set vertices"
  shows "\<exists>forest total_weight printed dsu.
           kruskal_mst vertices edges = Some (Inr ((forest, total_weight), printed)) \<and>
           DisjointSetUnion_init vertices = Some (Inr dsu) \<and>
           replay dsu forest = Some (Inr True) \<and>
           acyclic_edges (set forest) \<and> distinct forest"
proof -
  from init_inv[of vertices] obtain d0 where
    i: "DisjointSetUnion_init vertices = Some (Inr d0)" and inv0: "dsu_inv (set vertices) d0"
    and rel0: "rep_rel d0 = Id_on (set vertices)" by blast
  show ?thesis
  proof (cases "vertices = [] \<or> edges = []")
    case True
    then have "kruskal_mst vertices edges =
        Some (Inr (([], 0), [''Error: The graph must have at least one vertex and one edge.'']))"
      by (simp add: kruskal_mst_def return_def)
    moreover have "replay d0 [] = Some (Inr True)" by (simp add: return_def)
    ultimately show ?thesis using i by (auto simp: acyclic_edges_empty)
  next
    case False
    then have ne: "vertices \<noteq> []" "edges \<noteq> []" by simp_all
    let ?F = "accepted [] (sort_key weight edges)"
    from assms have ep: "endpoints_in (set vertices) (set edges)" unfolding endpoints_in_def .
    have sub: "set ?F \<subseteq> set edges" using set_accepted[of "[]" "sort_key weight edges"]
      by simp
    with ep have epF: "endpoints_in (set vertices) (set ?F)" unfolding endpoints_in_def by blast
    have rel0': "rep_rel d0 = uconn (set []) \<inter> set vertices \<times> set vertices"
      unfolding rel0 by (auto simp: uconn_empty)
    have all: "accepted [] ?F = [] @ ?F" by (simp add: accepted_idem)
    have "replay d0 ?F = Some (Inr True)" using inv0 rel0' epF all by (rule replay_spec)
    with kruskal_mst_spec[OF ne ep] i accepted_forest[of "sort_key weight edges"]
    show ?thesis by blast
  qed
qed

theorem kruskal_mst_forest_acyclic_witness:
  "\<exists>forest total_weight printed dsu.
     kruskal_mst nodes_kruskal edges_kruskal = Some (Inr ((forest, total_weight), printed)) \<and>
     DisjointSetUnion_init nodes_kruskal = Some (Inr dsu) \<and>
     replay dsu forest = Some (Inr True) \<and>
     acyclic_edges (set forest) \<and> distinct forest"
proof -
  have h: "\<forall>e\<in>set edges_kruskal. start e \<in> set nodes_kruskal \<and> end' e \<in> set nodes_kruskal"
    by (simp add: edges_kruskal_def nodes_kruskal_def)
  from kruskal_mst_forest_acyclic[OF h] show ?thesis .
qed

subsection \<open>C3: the worked example\<close>

text \<open>
  C3 (the claim as the code has it). On the graph of the demonstration block
  (9 vertices, 14 edges) \<^verbatim>\<open>kruskal_mst\<close> returns the pair of eight edges and the
  total weight 37, and no status. It prints no warning, which is how the code tells
  that exactly one connected component remains: the graph has one component, and with
  one more vertex \<open>j\<close>, which no edge touches, the same pair is returned and the
  warning is printed with the count 2.
\<close>

theorem worked_example:
  "kruskal_mst nodes_kruskal edges_kruskal =
     Some (Inr (([\<lparr>weight = 1, start = ''g'', end' = ''h''\<rparr>,
                  \<lparr>weight = 2, start = ''c'', end' = ''i''\<rparr>,
                  \<lparr>weight = 2, start = ''f'', end' = ''g''\<rparr>,
                  \<lparr>weight = 4, start = ''a'', end' = ''b''\<rparr>,
                  \<lparr>weight = 4, start = ''c'', end' = ''f''\<rparr>,
                  \<lparr>weight = 7, start = ''c'', end' = ''d''\<rparr>,
                  \<lparr>weight = 8, start = ''a'', end' = ''h''\<rparr>,
                  \<lparr>weight = 9, start = ''d'', end' = ''e''\<rparr>], 37), [])) \<and>
   length [\<lparr>weight = 1, start = ''g'', end' = ''h''\<rparr>,
           \<lparr>weight = 2, start = ''c'', end' = ''i''\<rparr>,
           \<lparr>weight = 2, start = ''f'', end' = ''g''\<rparr>,
           \<lparr>weight = 4, start = ''a'', end' = ''b''\<rparr>,
           \<lparr>weight = 4, start = ''c'', end' = ''f''\<rparr>,
           \<lparr>weight = 7, start = ''c'', end' = ''d''\<rparr>,
           \<lparr>weight = 8, start = ''a'', end' = ''h''\<rparr>,
           \<lparr>weight = 9, start = ''d'', end' = ''e''\<rparr>] = (8::nat) \<and>
   card (comps (set nodes_kruskal) (set edges_kruskal)) = 1 \<and>
   kruskal_mst (nodes_kruskal @ [''j'']) edges_kruskal =
     Some (Inr (([\<lparr>weight = 1, start = ''g'', end' = ''h''\<rparr>,
                  \<lparr>weight = 2, start = ''c'', end' = ''i''\<rparr>,
                  \<lparr>weight = 2, start = ''f'', end' = ''g''\<rparr>,
                  \<lparr>weight = 4, start = ''a'', end' = ''b''\<rparr>,
                  \<lparr>weight = 4, start = ''c'', end' = ''f''\<rparr>,
                  \<lparr>weight = 7, start = ''c'', end' = ''d''\<rparr>,
                  \<lparr>weight = 8, start = ''a'', end' = ''h''\<rparr>,
                  \<lparr>weight = 9, start = ''d'', end' = ''e''\<rparr>], 37),
        [CHR 0x0A # ''Warning: The graph is disconnected. MST includes only connected components.'',
         ''Number of connected components: 2'']))"
proof -
  let ?F = "[\<lparr>weight = 1, start = ''g'', end' = ''h''\<rparr>,
             \<lparr>weight = 2, start = ''c'', end' = ''i''\<rparr>,
             \<lparr>weight = 2, start = ''f'', end' = ''g''\<rparr>,
             \<lparr>weight = 4, start = ''a'', end' = ''b''\<rparr>,
             \<lparr>weight = 4, start = ''c'', end' = ''f''\<rparr>,
             \<lparr>weight = 7, start = ''c'', end' = ''d''\<rparr>,
             \<lparr>weight = 8, start = ''a'', end' = ''h''\<rparr>,
             \<lparr>weight = 9, start = ''d'', end' = ''e''\<rparr>]"
  have "returns (kruskal_mst nodes_kruskal edges_kruskal) ((?F, 37), [])"
    by code_simp
  then have run: "kruskal_mst nodes_kruskal edges_kruskal = Some (Inr ((?F, 37), []))"
    unfolding returns_iff .
  have "returns (kruskal_mst (nodes_kruskal @ [''j'']) edges_kruskal) ((?F, 37),
        [CHR 0x0A # ''Warning: The graph is disconnected. MST includes only connected components.'',
         ''Number of connected components: 2''])"
    by code_simp
  then have run2: "kruskal_mst (nodes_kruskal @ [''j'']) edges_kruskal = Some (Inr ((?F, 37),
        [CHR 0x0A # ''Warning: The graph is disconnected. MST includes only connected components.'',
         ''Number of connected components: 2'']))"
    unfolding returns_iff .
  have ne: "nodes_kruskal \<noteq> []" "edges_kruskal \<noteq> []"
    by (simp_all add: nodes_kruskal_def edges_kruskal_def)
  have ep: "endpoints_in (set nodes_kruskal) (set edges_kruskal)"
    by (simp add: endpoints_in_def nodes_kruskal_def edges_kruskal_def)
  from kruskal_mst_spec[OF ne ep] run
  have "\<not> 1 < card (comps (set nodes_kruskal) (set edges_kruskal))"
    unfolding comps_accepted by (simp split: if_splits)
  moreover have "1 \<le> card (comps (set nodes_kruskal) (set edges_kruskal))"
    by (rule card_comps_pos) (simp_all add: nodes_kruskal_def)
  ultimately have "card (comps (set nodes_kruskal) (set edges_kruskal)) = 1" by simp
  with run run2 show ?thesis by simp
qed

text \<open>
  C3 as stated fails in its last part: the result has no status. The value returned
  on the worked example is the value returned when two isolated vertices \<open>j\<close> and
  \<open>k\<close> are added to the vertex set, which leaves three components; that the graph is
  spanned shows only in the absence of printed lines.
\<close>

theorem worked_example_status_counterexample:
  "kruskal_mst nodes_kruskal edges_kruskal =
     Some (Inr (([\<lparr>weight = 1, start = ''g'', end' = ''h''\<rparr>,
                  \<lparr>weight = 2, start = ''c'', end' = ''i''\<rparr>,
                  \<lparr>weight = 2, start = ''f'', end' = ''g''\<rparr>,
                  \<lparr>weight = 4, start = ''a'', end' = ''b''\<rparr>,
                  \<lparr>weight = 4, start = ''c'', end' = ''f''\<rparr>,
                  \<lparr>weight = 7, start = ''c'', end' = ''d''\<rparr>,
                  \<lparr>weight = 8, start = ''a'', end' = ''h''\<rparr>,
                  \<lparr>weight = 9, start = ''d'', end' = ''e''\<rparr>], 37), [])) \<and>
   kruskal_mst (nodes_kruskal @ [''j'', ''k'']) edges_kruskal =
     Some (Inr (([\<lparr>weight = 1, start = ''g'', end' = ''h''\<rparr>,
                  \<lparr>weight = 2, start = ''c'', end' = ''i''\<rparr>,
                  \<lparr>weight = 2, start = ''f'', end' = ''g''\<rparr>,
                  \<lparr>weight = 4, start = ''a'', end' = ''b''\<rparr>,
                  \<lparr>weight = 4, start = ''c'', end' = ''f''\<rparr>,
                  \<lparr>weight = 7, start = ''c'', end' = ''d''\<rparr>,
                  \<lparr>weight = 8, start = ''a'', end' = ''h''\<rparr>,
                  \<lparr>weight = 9, start = ''d'', end' = ''e''\<rparr>], 37),
        [CHR 0x0A # ''Warning: The graph is disconnected. MST includes only connected components.'',
         ''Number of connected components: 3'']))"
proof -
  let ?F = "[\<lparr>weight = 1, start = ''g'', end' = ''h''\<rparr>,
             \<lparr>weight = 2, start = ''c'', end' = ''i''\<rparr>,
             \<lparr>weight = 2, start = ''f'', end' = ''g''\<rparr>,
             \<lparr>weight = 4, start = ''a'', end' = ''b''\<rparr>,
             \<lparr>weight = 4, start = ''c'', end' = ''f''\<rparr>,
             \<lparr>weight = 7, start = ''c'', end' = ''d''\<rparr>,
             \<lparr>weight = 8, start = ''a'', end' = ''h''\<rparr>,
             \<lparr>weight = 9, start = ''d'', end' = ''e''\<rparr>]"
  have "returns (kruskal_mst nodes_kruskal edges_kruskal) ((?F, 37), [])"
    by code_simp
  moreover have "returns (kruskal_mst (nodes_kruskal @ [''j'', ''k'']) edges_kruskal) ((?F, 37),
        [CHR 0x0A # ''Warning: The graph is disconnected. MST includes only connected components.'',
         ''Number of connected components: 3''])"
    by code_simp
  ultimately show ?thesis unfolding returns_iff by (rule conjI)
qed

subsection \<open>C4: what is reported about connectivity\<close>

text \<open>
  C4 (the claim as the code has it). On input with a vertex and an edge, every edge
  between vertices of the set, \<^verbatim>\<open>kruskal_mst\<close> returns the pair of forest and total
  weight only. The components left by the forest are those of the graph. When there is
  one, nothing is printed; when there are more, two lines are printed: the warning, and
  the number of components.
\<close>

theorem kruskal_mst_reports_components:
  assumes "vertices \<noteq> []" and "edges \<noteq> []"
    and "\<forall>e\<in>set edges. start e \<in> set vertices \<and> end' e \<in> set vertices"
  shows "\<exists>forest total_weight.
           kruskal_mst vertices edges =
             Some (Inr ((forest, total_weight),
               if card (comps (set vertices) (set edges)) = 1 then []
               else [CHR 0x0A # ''Warning: The graph is disconnected. MST includes only connected components.'',
                     ''Number of connected components: '' @
                        str_nat (card (comps (set vertices) (set edges)))])) \<and>
           comps (set vertices) (set forest) = comps (set vertices) (set edges)"
proof -
  from assms(3) have ep: "endpoints_in (set vertices) (set edges)" unfolding endpoints_in_def .
  have "1 \<le> card (comps (set vertices) (set edges))"
    by (rule card_comps_pos) (use assms(1) in simp_all)
  then have c: "1 < card (comps (set vertices) (set edges)) \<longleftrightarrow>
      card (comps (set vertices) (set edges)) \<noteq> 1" by auto
  from kruskal_mst_spec[OF assms(1,2) ep] show ?thesis
    unfolding comps_accepted c by (auto simp: comps_accepted)
qed

theorem kruskal_mst_reports_components_witness:
  "(\<exists>forest total_weight.
      kruskal_mst [''a'', ''b'', ''c''] [\<lparr>weight = 1, start = ''a'', end' = ''b''\<rparr>] =
        Some (Inr ((forest, total_weight),
          if card (comps (set [''a'', ''b'', ''c'']) (set [\<lparr>weight = 1, start = ''a'', end' = ''b''\<rparr>])) = 1
          then []
          else [CHR 0x0A # ''Warning: The graph is disconnected. MST includes only connected components.'',
                ''Number of connected components: '' @
                   str_nat (card (comps (set [''a'', ''b'', ''c''])
                                        (set [\<lparr>weight = 1, start = ''a'', end' = ''b''\<rparr>])))])) \<and>
      comps (set [''a'', ''b'', ''c'']) (set forest) =
        comps (set [''a'', ''b'', ''c'']) (set [\<lparr>weight = 1, start = ''a'', end' = ''b''\<rparr>])) \<and>
   kruskal_mst [''a'', ''b'', ''c''] [\<lparr>weight = 1, start = ''a'', end' = ''b''\<rparr>] =
     Some (Inr (([\<lparr>weight = 1, start = ''a'', end' = ''b''\<rparr>], 1),
        [CHR 0x0A # ''Warning: The graph is disconnected. MST includes only connected components.'',
         ''Number of connected components: 2'']))"
proof -
  have "returns (kruskal_mst [''a'', ''b'', ''c''] [\<lparr>weight = 1, start = ''a'', end' = ''b''\<rparr>])
     (([\<lparr>weight = 1, start = ''a'', end' = ''b''\<rparr>], 1),
        [CHR 0x0A # ''Warning: The graph is disconnected. MST includes only connected components.'',
         ''Number of connected components: 2''])"
    by code_simp
  then have run: "kruskal_mst [''a'', ''b'', ''c''] [\<lparr>weight = 1, start = ''a'', end' = ''b''\<rparr>] =
     Some (Inr (([\<lparr>weight = 1, start = ''a'', end' = ''b''\<rparr>], 1),
        [CHR 0x0A # ''Warning: The graph is disconnected. MST includes only connected components.'',
         ''Number of connected components: 2'']))"
    unfolding returns_iff .
  have "\<exists>forest total_weight.
      kruskal_mst [''a'', ''b'', ''c''] [\<lparr>weight = 1, start = ''a'', end' = ''b''\<rparr>] =
        Some (Inr ((forest, total_weight),
          if card (comps (set [''a'', ''b'', ''c'']) (set [\<lparr>weight = 1, start = ''a'', end' = ''b''\<rparr>])) = 1
          then []
          else [CHR 0x0A # ''Warning: The graph is disconnected. MST includes only connected components.'',
                ''Number of connected components: '' @
                   str_nat (card (comps (set [''a'', ''b'', ''c''])
                                        (set [\<lparr>weight = 1, start = ''a'', end' = ''b''\<rparr>])))])) \<and>
      comps (set [''a'', ''b'', ''c'']) (set forest) =
        comps (set [''a'', ''b'', ''c'']) (set [\<lparr>weight = 1, start = ''a'', end' = ''b''\<rparr>])"
    by (rule kruskal_mst_reports_components) simp_all
  with run show ?thesis by (rule conjI[rotated])
qed

text \<open>
  C4 as stated fails: the value returned is the same for a graph that is connected
  (vertices \<open>a\<close>, \<open>b\<close>) and for one that is not (vertices \<open>a\<close>, \<open>b\<close>, \<open>c\<close>); the
  status is in the printed lines only.
\<close>

theorem kruskal_mst_status_counterexample:
  "kruskal_mst [''a'', ''b''] [\<lparr>weight = 1, start = ''a'', end' = ''b''\<rparr>] =
     Some (Inr (([\<lparr>weight = 1, start = ''a'', end' = ''b''\<rparr>], 1), [])) \<and>
   kruskal_mst [''a'', ''b'', ''c''] [\<lparr>weight = 1, start = ''a'', end' = ''b''\<rparr>] =
     Some (Inr (([\<lparr>weight = 1, start = ''a'', end' = ''b''\<rparr>], 1),
        [CHR 0x0A # ''Warning: The graph is disconnected. MST includes only connected components.'',
         ''Number of connected components: 2'']))"
proof -
  have "returns (kruskal_mst [''a'', ''b''] [\<lparr>weight = 1, start = ''a'', end' = ''b''\<rparr>])
          (([\<lparr>weight = 1, start = ''a'', end' = ''b''\<rparr>], 1), [])"
    by code_simp
  moreover have "returns (kruskal_mst [''a'', ''b'', ''c''] [\<lparr>weight = 1, start = ''a'', end' = ''b''\<rparr>])
     (([\<lparr>weight = 1, start = ''a'', end' = ''b''\<rparr>], 1),
        [CHR 0x0A # ''Warning: The graph is disconnected. MST includes only connected components.'',
         ''Number of connected components: 2''])"
    by code_simp
  ultimately show ?thesis unfolding returns_iff by (rule conjI)
qed

subsection \<open>C5: empty input\<close>

text \<open>
  C5 (the claim as the code has it). When the vertex set or the edge list is empty,
  \<^verbatim>\<open>kruskal_mst\<close> raises nothing: it returns the pair of the empty list and 0, and
  prints one line, the error message. The pair itself carries no status.
\<close>

theorem kruskal_mst_empty_input:
  assumes "vertices = [] \<or> edges = []"
  shows "kruskal_mst vertices edges =
           Some (Inr (([], 0), [''Error: The graph must have at least one vertex and one edge.'']))"
  using assms by (simp add: kruskal_mst_def return_def)

theorem kruskal_mst_empty_input_witness:
  "kruskal_mst [''a''] [] =
     Some (Inr (([], 0), [''Error: The graph must have at least one vertex and one edge.'']))"
  using kruskal_mst_empty_input[of "[''a'']" "[]"] by simp

text \<open>
  C5 as stated fails: the value returned for empty input is the value returned for a
  graph with a vertex and an edge (a loop at \<open>a\<close>, which is rejected), so no
  status of insufficient input is returned; only the printed line tells the two apart.
\<close>

theorem kruskal_mst_empty_input_counterexample:
  "kruskal_mst ([] :: string list) [] =
     Some (Inr (([], 0), [''Error: The graph must have at least one vertex and one edge.''])) \<and>
   kruskal_mst [''a''] [\<lparr>weight = 5, start = ''a'', end' = ''a''\<rparr>] =
     Some (Inr (([], 0), []))"
proof -
  have "returns (kruskal_mst ([] :: string list) [])
          (([], 0), [''Error: The graph must have at least one vertex and one edge.''])"
    by code_simp
  moreover have "returns (kruskal_mst [''a''] [\<lparr>weight = 5, start = ''a'', end' = ''a''\<rparr>])
          (([], 0), [])"
    by code_simp
  ultimately show ?thesis unfolding returns_iff by (rule conjI)
qed

subsection \<open>C6: equal weights\<close>

text \<open>
  C6 (the claim as the code has it). The edges are processed in the stable ascending
  order of their weights, and the forest is a subsequence of that order: edges of one
  weight that are accepted stand in the forest in the order they have in the input.
  An edge is accepted exactly when the edges processed before it do not connect its
  ends, and is rejected otherwise. Of two edges whose ends are not connected by the
  edges processed before each of them, both are accepted, the one processed first
  standing first in the forest. In particular an edge whose ends the other edges of
  the input do not connect is accepted, and when the input is two edges of one weight
  that join two disjoint pairs of distinct vertices, both are accepted.
\<close>

theorem kruskal_mst_tie_order:
  assumes "vertices \<noteq> []" and "edges \<noteq> []"
    and "\<forall>e\<in>set edges. start e \<in> set vertices \<and> end' e \<in> set vertices"
  shows "\<exists>forest total_weight printed.
           kruskal_mst vertices edges = Some (Inr ((forest, total_weight), printed)) \<and>
           subseq forest (sort_key weight edges) \<and>
           sorted (map weight (sort_key weight edges)) \<and>
           (\<forall>k. filter (\<lambda>e. weight e = k) (sort_key weight edges) =
                filter (\<lambda>e. weight e = k) edges) \<and>
           (\<forall>k. subseq (filter (\<lambda>e. weight e = k) forest) (filter (\<lambda>e. weight e = k) edges)) \<and>
           (\<forall>e1 e2. edges = [e1, e2] \<and> weight e1 = weight e2 \<and>
                start e1 \<noteq> end' e1 \<and> start e2 \<noteq> end' e2 \<and>
                {start e1, end' e1} \<inter> {start e2, end' e2} = {} \<longrightarrow> forest = [e1, e2]) \<and>
           (\<forall>e. e \<in> set forest \<longleftrightarrow>
                (\<exists>xs ys. sort_key weight edges = xs @ e # ys \<and>
                   (start e, end' e) \<notin> uconn (set xs))) \<and>
           (\<forall>xs e1 ys e2 zs. sort_key weight edges = xs @ e1 # ys @ e2 # zs \<and>
                (start e1, end' e1) \<notin> uconn (set xs) \<and>
                (start e2, end' e2) \<notin> uconn (set (xs @ e1 # ys)) \<longrightarrow>
                (\<exists>fs gs hs. forest = fs @ e1 # gs @ e2 # hs)) \<and>
           (\<forall>e\<in>set edges. (start e, end' e) \<notin> uconn (set edges - {e}) \<longrightarrow> e \<in> set forest)"
proof -
  let ?S = "sort_key weight edges"
  let ?F = "accepted [] ?S"
  from assms(3) have ep: "endpoints_in (set vertices) (set edges)" unfolding endpoints_in_def .
  have sub: "subseq ?F ?S" by (rule accepted_subseq)
  have srt: "sorted (map weight ?S)" by (rule sorted_sort_key)
  have stable: "\<forall>k. filter (\<lambda>e. weight e = k) ?S = filter (\<lambda>e. weight e = k) edges"
    by (simp add: sort_key_stable)
  have tie: "\<forall>k. subseq (filter (\<lambda>e. weight e = k) ?F) (filter (\<lambda>e. weight e = k) edges)"
  proof
    fix k
    have "subseq (filter (\<lambda>e. weight e = k) ?F) (filter (\<lambda>e. weight e = k) ?S)"
      using sub by simp
    then show "subseq (filter (\<lambda>e. weight e = k) ?F) (filter (\<lambda>e. weight e = k) edges)"
      using stable by simp
  qed
  have two: "\<forall>e1 e2. edges = [e1, e2] \<and> weight e1 = weight e2 \<and>
                start e1 \<noteq> end' e1 \<and> start e2 \<noteq> end' e2 \<and>
                {start e1, end' e1} \<inter> {start e2, end' e2} = {} \<longrightarrow> ?F = [e1, e2]"
  proof (intro allI impI)
    fix e1 e2
    assume h: "edges = [e1, e2] \<and> weight e1 = weight e2 \<and>
                start e1 \<noteq> end' e1 \<and> start e2 \<noteq> end' e2 \<and>
                {start e1, end' e1} \<inter> {start e2, end' e2} = {}"
    then have S: "?S = [e1, e2]" by simp
    have 1: "(start e1, end' e1) \<notin> uconn (set [])"
      using h by (simp add: uconn_empty)
    have "uconn {e1} = Id \<union> {(start e1, end' e1), (end' e1, start e1)}"
      using uconn_insert[of e1 "{}"] by (auto simp: uconn_empty)
    with h have 2: "(start e2, end' e2) \<notin> uconn (set [e1])" by auto
    from 1 2 show "?F = [e1, e2]" unfolding S by simp
  qed
  have iff: "\<forall>e. e \<in> set ?F \<longleftrightarrow>
                (\<exists>xs ys. ?S = xs @ e # ys \<and> (start e, end' e) \<notin> uconn (set xs))"
    using accepted_iff by blast
  have both: "\<forall>xs e1 ys e2 zs. ?S = xs @ e1 # ys @ e2 # zs \<and>
                (start e1, end' e1) \<notin> uconn (set xs) \<and>
                (start e2, end' e2) \<notin> uconn (set (xs @ e1 # ys)) \<longrightarrow>
                (\<exists>fs gs hs. ?F = fs @ e1 # gs @ e2 # hs)"
  proof (intro allI impI)
    fix xs e1 ys e2 zs
    assume h: "?S = xs @ e1 # ys @ e2 # zs \<and>
                (start e1, end' e1) \<notin> uconn (set xs) \<and>
                (start e2, end' e2) \<notin> uconn (set (xs @ e1 # ys))"
    then have "\<exists>fs gs hs. accepted [] (xs @ e1 # ys @ e2 # zs) = fs @ e1 # gs @ e2 # hs"
      using accepted_both by blast
    with h show "\<exists>fs gs hs. ?F = fs @ e1 # gs @ e2 # hs" by simp
  qed
  have bridge: "\<forall>e\<in>set edges. (start e, end' e) \<notin> uconn (set edges - {e}) \<longrightarrow> e \<in> set ?F"
  proof (intro ballI impI)
    fix e assume "e \<in> set edges" and "(start e, end' e) \<notin> uconn (set edges - {e})"
    then show "e \<in> set ?F" using accepted_bridge[of e ?S] by simp
  qed
  have run: "\<exists>total_weight printed.
      kruskal_mst vertices edges = Some (Inr ((?F, total_weight), printed))"
    using kruskal_mst_spec[OF assms(1,2) ep] by blast
  then obtain total_weight printed where
    "kruskal_mst vertices edges = Some (Inr ((?F, total_weight), printed))" by blast
  with sub srt stable tie two iff both bridge show ?thesis by blast
qed

theorem kruskal_mst_tie_order_witness:
  "\<exists>forest total_weight printed.
     kruskal_mst [''a'', ''b'', ''c'', ''d'', ''e'', ''f'']
       [\<lparr>weight = 1, start = ''a'', end' = ''b''\<rparr>,
        \<lparr>weight = 2, start = ''c'', end' = ''d''\<rparr>,
        \<lparr>weight = 2, start = ''e'', end' = ''f''\<rparr>] =
       Some (Inr ((forest, total_weight), printed)) \<and>
     \<lparr>weight = 2, start = ''c'', end' = ''d''\<rparr> \<in> set forest \<and>
     \<lparr>weight = 2, start = ''e'', end' = ''f''\<rparr> \<in> set forest \<and>
     (\<exists>fs gs hs. forest = fs @ \<lparr>weight = 2, start = ''c'', end' = ''d''\<rparr> #
                               gs @ \<lparr>weight = 2, start = ''e'', end' = ''f''\<rparr> # hs)"
proof -
  let ?ab = "\<lparr>weight = 1, start = ''a'', end' = ''b''\<rparr>"
  let ?cd = "\<lparr>weight = 2, start = ''c'', end' = ''d''\<rparr>"
  let ?ef = "\<lparr>weight = 2, start = ''e'', end' = ''f''\<rparr>"
  let ?vs = "[''a'', ''b'', ''c'', ''d'', ''e'', ''f'']"
  let ?es = "[?ab, ?cd, ?ef]"
  have "?vs \<noteq> []" and "?es \<noteq> []"
    and "\<forall>e\<in>set ?es. start e \<in> set ?vs \<and> end' e \<in> set ?vs"
    by simp_all
  from kruskal_mst_tie_order[OF this]
  obtain forest total_weight printed where
    k: "kruskal_mst ?vs ?es = Some (Inr ((forest, total_weight), printed))"
    and both: "\<forall>xs e1 ys e2 zs. sort_key weight ?es = xs @ e1 # ys @ e2 # zs \<and>
                (start e1, end' e1) \<notin> uconn (set xs) \<and>
                (start e2, end' e2) \<notin> uconn (set (xs @ e1 # ys)) \<longrightarrow>
                (\<exists>fs gs hs. forest = fs @ e1 # gs @ e2 # hs)"
    and bridge: "\<forall>e\<in>set ?es. (start e, end' e) \<notin> uconn (set ?es - {e}) \<longrightarrow> e \<in> set forest"
    by blast
  have S: "sort_key weight ?es = [?ab] @ ?cd # [] @ ?ef # []" by simp
  have 1: "(start ?cd, end' ?cd) \<notin> uconn (set [?ab])"
    by (simp add: uconn_insert uconn_empty)
  have 2: "(start ?ef, end' ?ef) \<notin> uconn (set ([?ab] @ ?cd # []))"
    by (simp add: uconn_insert uconn_empty)
  from both S 1 2 have ord: "\<exists>fs gs hs. forest = fs @ ?cd # gs @ ?ef # hs" by blast
  have "set ?es - {?cd} = {?ab, ?ef}" by auto
  then have "(start ?cd, end' ?cd) \<notin> uconn (set ?es - {?cd})"
    by (simp add: uconn_insert uconn_empty)
  with bridge have cd: "?cd \<in> set forest" by simp
  have "set ?es - {?ef} = {?ab, ?cd}" by auto
  then have "(start ?ef, end' ?ef) \<notin> uconn (set ?es - {?ef})"
    by (simp add: uconn_insert uconn_empty)
  with bridge have ef: "?ef \<in> set forest" by simp
  from k cd ef ord show ?thesis by blast
qed

text \<open>
  C6 as stated fails: in the input below the two edges of weight 2 join the disjoint
  pairs \<open>a, b\<close> and \<open>c, d\<close>, and the first of them is rejected, the edge of
  weight 1 having joined \<open>a\<close> and \<open>b\<close> before.
\<close>

theorem kruskal_mst_tie_counterexample:
  "kruskal_mst [''a'', ''b'', ''c'', ''d'']
     [\<lparr>weight = 1, start = ''a'', end' = ''b''\<rparr>,
      \<lparr>weight = 2, start = ''a'', end' = ''b''\<rparr>,
      \<lparr>weight = 2, start = ''c'', end' = ''d''\<rparr>,
      \<lparr>weight = 3, start = ''b'', end' = ''c''\<rparr>] =
   Some (Inr (([\<lparr>weight = 1, start = ''a'', end' = ''b''\<rparr>,
                \<lparr>weight = 2, start = ''c'', end' = ''d''\<rparr>,
                \<lparr>weight = 3, start = ''b'', end' = ''c''\<rparr>], 6), []))"
proof -
  have "returns (kruskal_mst [''a'', ''b'', ''c'', ''d'']
     [\<lparr>weight = 1, start = ''a'', end' = ''b''\<rparr>,
      \<lparr>weight = 2, start = ''a'', end' = ''b''\<rparr>,
      \<lparr>weight = 2, start = ''c'', end' = ''d''\<rparr>,
      \<lparr>weight = 3, start = ''b'', end' = ''c''\<rparr>])
     (([\<lparr>weight = 1, start = ''a'', end' = ''b''\<rparr>,
        \<lparr>weight = 2, start = ''c'', end' = ''d''\<rparr>,
        \<lparr>weight = 3, start = ''b'', end' = ''c''\<rparr>], 6), [])"
    by code_simp
  then show ?thesis unfolding returns_iff .
qed

subsection \<open>C7: unknown vertices\<close>

text \<open>
  C7 (the claim as the code has it). In a state reachable from construction over
  \<open>vertices\<close>, for a vertex \<open>v\<close> outside that set: \<^verbatim>\<open>find(v)\<close> and
  \<^verbatim>\<open>union(v, b)\<close> raise \<^verbatim>\<open>KeyError\<close> and leave the object as it was;
  \<^verbatim>\<open>union(a, v)\<close> with \<open>a\<close> known raises \<^verbatim>\<open>KeyError\<close> after \<^verbatim>\<open>find(a)\<close>
  has run: the keys of both dictionaries are still the vertex set (\<open>v\<close> is not
  inserted), the ranks are unchanged and so is the partition, though parent links may
  have been compressed.
\<close>

theorem unknown_vertex_raises:
  assumes "reachable vertices d" and "v \<notin> set vertices"
  shows "find_dsu d v = Some (Inl (KeyError v, d)) \<and>
         (\<forall>b. union_dsu d v b = Some (Inl (KeyError v, d))) \<and>
         (\<forall>a\<in>set vertices. \<exists>d'. union_dsu d a v = Some (Inl (KeyError v, d')) \<and>
            dom (parent d') = set vertices \<and> dom (rank d') = set vertices \<and>
            rank d' = rank d \<and> rep_rel d' = rep_rel d)"
proof -
  from assms(1) have inv: "dsu_inv (set vertices) d" by (rule reachable_inv)
  with assms(2) have n: "parent d v = None" unfolding dsu_inv_def by auto
  have 1: "find_dsu d v = Some (Inl (KeyError v, d))" using n by (rule find_dsu_unknown)
  have 2: "\<forall>b. union_dsu d v b = Some (Inl (KeyError v, d))"
    using n by (simp add: union_dsu_unknown_first)
  have 3: "\<exists>d'. union_dsu d a v = Some (Inl (KeyError v, d')) \<and>
            dom (parent d') = set vertices \<and> dom (rank d') = set vertices \<and>
            rank d' = rank d \<and> rep_rel d' = rep_rel d" if "a \<in> set vertices" for a
    using union_dsu_unknown_second[OF inv that assms(2)] unfolding dsu_inv_def by blast
  from 1 2 3 show ?thesis by blast
qed

theorem unknown_vertex_raises_witness:
  "\<exists>d0. DisjointSetUnion_init [''a'', ''b''] = Some (Inr d0) \<and>
     find_dsu d0 ''z'' = Some (Inl (KeyError ''z'', d0)) \<and>
     union_dsu d0 ''z'' ''a'' = Some (Inl (KeyError ''z'', d0)) \<and>
     (\<exists>d'. union_dsu d0 ''a'' ''z'' = Some (Inl (KeyError ''z'', d')) \<and>
        dom (parent d') = {''a'', ''b''} \<and> dom (rank d') = {''a'', ''b''} \<and>
        rank d' = rank d0 \<and> rep_rel d' = rep_rel d0)"
proof -
  from init_inv[of "[''a'', ''b'']"] obtain d0 where
    i: "DisjointSetUnion_init [''a'', ''b''] = Some (Inr d0)" by blast
  then have r0: "reachable [''a'', ''b''] d0" by (rule reachable_init)
  have z: "''z'' \<notin> set [''a'', ''b'']" by simp
  from unknown_vertex_raises[OF r0 z] i show ?thesis by simp
qed

text \<open>
  C7 as stated fails in its last part. The state \<open>dsu_chain\<close> is reached from
  construction over \<open>a, b, c, d\<close> by \<^verbatim>\<open>union(a, b)\<close>, \<^verbatim>\<open>union(c, d)\<close>,
  \<^verbatim>\<open>union(a, c)\<close>; there the parent of \<open>d\<close> is \<open>c\<close>. The call
  \<^verbatim>\<open>union(d, z)\<close> with the unknown vertex \<open>z\<close> raises \<^verbatim>\<open>KeyError\<close>, and
  leaves the parent of \<open>d\<close> changed to \<open>a\<close>.
\<close>

theorem unknown_vertex_counterexample:
  "reachable [''a'', ''b'', ''c'', ''d''] dsu_chain \<and>
   ''z'' \<notin> set [''a'', ''b'', ''c'', ''d''] \<and>
   parent dsu_chain ''d'' = Some ''c'' \<and>
   union_dsu dsu_chain ''d'' ''z'' =
     Some (Inl (KeyError ''z'',
                dsu_chain\<lparr>parent := (parent dsu_chain)(''c'' \<mapsto> ''a'', ''d'' \<mapsto> ''a'')\<rparr>)) \<and>
   parent (dsu_chain\<lparr>parent := (parent dsu_chain)(''c'' \<mapsto> ''a'', ''d'' \<mapsto> ''a'')\<rparr>) ''d'' = Some ''a''"
proof -
  let ?vs = "[''a'', ''b'', ''c'', ''d'']"
  define D0 :: "string DisjointSetUnion" where
    "D0 = \<lparr>parent = [''a'' \<mapsto> ''a'', ''b'' \<mapsto> ''b'', ''c'' \<mapsto> ''c'', ''d'' \<mapsto> ''d''],
           rank = [''a'' \<mapsto> 0, ''b'' \<mapsto> 0, ''c'' \<mapsto> 0, ''d'' \<mapsto> 0]\<rparr>"
  define D1 :: "string DisjointSetUnion" where
    "D1 = \<lparr>parent = [''a'' \<mapsto> ''a'', ''b'' \<mapsto> ''a'', ''c'' \<mapsto> ''c'', ''d'' \<mapsto> ''d''],
           rank = [''a'' \<mapsto> 1, ''b'' \<mapsto> 0, ''c'' \<mapsto> 0, ''d'' \<mapsto> 0]\<rparr>"
  define D2 :: "string DisjointSetUnion" where
    "D2 = \<lparr>parent = [''a'' \<mapsto> ''a'', ''b'' \<mapsto> ''a'', ''c'' \<mapsto> ''c'', ''d'' \<mapsto> ''c''],
           rank = [''a'' \<mapsto> 1, ''b'' \<mapsto> 0, ''c'' \<mapsto> 1, ''d'' \<mapsto> 0]\<rparr>"
  have i: "DisjointSetUnion_init ?vs = Some (Inr D0)"
    by (auto simp: DisjointSetUnion_init_def return_def D0_def fun_eq_iff)
  have u1: "union_dsu D0 ''a'' ''b'' = Some (Inr D1)"
    by (auto simp: D0_def D1_def bind_res_def return_def union_dsu_def find_dsu.simps
        subscript_def fun_eq_iff)
  have u2: "union_dsu D1 ''c'' ''d'' = Some (Inr D2)"
    by (auto simp: D1_def D2_def bind_res_def return_def union_dsu_def find_dsu.simps
        subscript_def fun_eq_iff)
  have u3: "union_dsu D2 ''a'' ''c'' = Some (Inr dsu_chain)"
    by (auto simp: D2_def dsu_chain_def bind_res_def return_def union_dsu_def find_dsu.simps
        subscript_def fun_eq_iff)
  have r0: "reachable ?vs D0" using i by (rule reachable_init)
  have r1: "reachable ?vs D1" by (rule reachable_union[OF r0 _ _ u1]) simp_all
  have r2: "reachable ?vs D2" by (rule reachable_union[OF r1 _ _ u2]) simp_all
  have r3: "reachable ?vs dsu_chain" by (rule reachable_union[OF r2 _ _ u3]) simp_all
  have p: "parent dsu_chain ''d'' = Some ''c''" by (simp add: dsu_chain_def)
  have u: "union_dsu dsu_chain ''d'' ''z'' =
     Some (Inl (KeyError ''z'',
                dsu_chain\<lparr>parent := (parent dsu_chain)(''c'' \<mapsto> ''a'', ''d'' \<mapsto> ''a'')\<rparr>))"
    by (simp add: dsu_chain_def bind_res_def union_dsu_def find_dsu.simps)
  from r3 p u show ?thesis by simp
qed

subsection \<open>C8: construction\<close>

text \<open>
  C8 (the claim as the code has it). Construction never fails, whatever the vertex
  set: it returns a DSU whose two dictionaries have the vertices as keys, every vertex
  its own parent, with rank 0.
\<close>

theorem DisjointSetUnion_init_singletons:
  "\<exists>d. DisjointSetUnion_init vertices = Some (Inr d) \<and>
        dom (parent d) = set vertices \<and> dom (rank d) = set vertices \<and>
        (\<forall>v\<in>set vertices. parent d v = Some v \<and> rank d v = Some 0)"
proof -
  from init_inv[of vertices] obtain d where
    "DisjointSetUnion_init vertices = Some (Inr d)" "dsu_inv (set vertices) d"
    "\<forall>v\<in>set vertices. parent d v = Some v \<and> rank d v = Some 0" by blast
  then show ?thesis unfolding dsu_inv_def by blast
qed

theorem DisjointSetUnion_init_singletons_witness:
  "\<exists>d. DisjointSetUnion_init [''a'', ''b''] = Some (Inr d) \<and>
        dom (parent d) = {''a'', ''b''} \<and> dom (rank d) = {''a'', ''b''} \<and>
        parent d ''a'' = Some ''a'' \<and> rank d ''a'' = Some 0 \<and>
        parent d ''b'' = Some ''b'' \<and> rank d ''b'' = Some 0"
  using DisjointSetUnion_init_singletons[of "[''a'', ''b'']"] by simp

text \<open>
  C8 as stated fails: construction from the empty vertex set returns a DSU with two
  empty dictionaries; nothing is raised.
\<close>

theorem DisjointSetUnion_init_empty_counterexample:
  "DisjointSetUnion_init ([] :: string list) = Some (Inr \<lparr>parent = Map.empty, rank = Map.empty\<rparr>)"
  by (simp add: DisjointSetUnion_init_def return_def)

subsection \<open>C9: the parent dictionary stays a forest\<close>

text \<open>
  C9. In every state reachable from construction by calls of \<^verbatim>\<open>find\<close> and
  \<^verbatim>\<open>union\<close> on vertices of the set: the parent links have no cycle; from every
  vertex they lead to a root, a vertex that is its own parent; \<^verbatim>\<open>find\<close> on a vertex
  returns that root; every \<^verbatim>\<open>find\<close> and every \<^verbatim>\<open>union\<close> returns, and leaves
  no rank lower than it was.
\<close>

theorem reachable_parent_forest:
  assumes "reachable vertices d"
  shows "(\<forall>v. (v, v) \<notin> (parent_links d)\<^sup>+) \<and>
         (\<forall>v\<in>set vertices. \<exists>r d'. root_of (parent d) v r \<and> parent d r = Some r \<and>
              find_dsu d v = Some (Inr (r, d')) \<and> rank_le d d') \<and>
         (\<forall>a\<in>set vertices. \<forall>b\<in>set vertices. \<exists>d'.
              union_dsu d a b = Some (Inr d') \<and> rank_le d d')"
proof -
  from assms have inv: "dsu_inv (set vertices) d" by (rule reachable_inv)
  have 1: "\<forall>v. (v, v) \<notin> (parent_links d)\<^sup>+" using dsu_inv_no_cycle[OF inv] by blast
  have 2: "\<exists>r d'. root_of (parent d) v r \<and> parent d r = Some r \<and>
              find_dsu d v = Some (Inr (r, d')) \<and> rank_le d d'" if "v \<in> set vertices" for v
  proof -
    from find_dsu_inv[OF inv that] obtain r d' where
      f: "find_dsu d v = Some (Inr (r, d'))" and vr: "root_of (parent d) v r"
      and rk: "rank d' = rank d" by blast
    from vr have "parent d r = Some r" by (rule root_of_root)
    moreover from rk have "rank_le d d'" by (rule rank_le_refl)
    ultimately show ?thesis using f vr by blast
  qed
  have 3: "\<exists>d'. union_dsu d a b = Some (Inr d') \<and> rank_le d d'"
    if "a \<in> set vertices" "b \<in> set vertices" for a b
    using union_dsu_inv[OF inv that] by blast
  from 1 2 3 show ?thesis by blast
qed

theorem reachable_parent_forest_witness:
  "\<exists>d0 d1. DisjointSetUnion_init [''a'', ''b''] = Some (Inr d0) \<and>
      union_dsu d0 ''a'' ''b'' = Some (Inr d1) \<and>
      (''b'', ''b'') \<notin> (parent_links d1)\<^sup>+ \<and>
      (\<exists>r d'. root_of (parent d1) ''b'' r \<and> parent d1 r = Some r \<and>
         find_dsu d1 ''b'' = Some (Inr (r, d')) \<and> rank_le d1 d') \<and>
      (\<exists>d'. union_dsu d1 ''b'' ''a'' = Some (Inr d') \<and> rank_le d1 d')"
proof -
  from init_inv[of "[''a'', ''b'']"] obtain d0 where
    i: "DisjointSetUnion_init [''a'', ''b''] = Some (Inr d0)"
    and inv0: "dsu_inv (set [''a'', ''b'']) d0" by blast
  from union_dsu_inv[OF inv0, of "''a''" "''b''"] obtain d1 where
    u: "union_dsu d0 ''a'' ''b'' = Some (Inr d1)" by auto
  have r0: "reachable [''a'', ''b''] d0" using i by (rule reachable_init)
  have r1: "reachable [''a'', ''b''] d1" by (rule reachable_union[OF r0 _ _ u]) simp_all
  from reachable_parent_forest[OF r1] i u show ?thesis by simp
qed

subsection \<open>C10: no exception on well-formed input\<close>

text \<open>
  C10. Whenever the start and the end of every edge are members of the vertex set,
  \<^verbatim>\<open>kruskal_mst\<close> returns: no call of \<^verbatim>\<open>find\<close> runs forever, and no
  dictionary lookup in \<^verbatim>\<open>find\<close> or \<^verbatim>\<open>union\<close> raises \<^verbatim>\<open>KeyError\<close>.
\<close>

theorem kruskal_mst_total:
  assumes "\<forall>e\<in>set edges. start e \<in> set vertices \<and> end' e \<in> set vertices"
  shows "\<exists>forest total_weight printed.
           kruskal_mst vertices edges = Some (Inr ((forest, total_weight), printed))"
proof (cases "vertices = [] \<or> edges = []")
  case True
  then show ?thesis by (simp add: kruskal_mst_def return_def)
next
  case False
  then have ne: "vertices \<noteq> []" "edges \<noteq> []" by simp_all
  from assms have "endpoints_in (set vertices) (set edges)" unfolding endpoints_in_def .
  from kruskal_mst_spec[OF ne this] show ?thesis by blast
qed

theorem kruskal_mst_total_witness:
  "\<exists>forest total_weight printed.
      kruskal_mst nodes_kruskal edges_kruskal = Some (Inr ((forest, total_weight), printed))"
proof -
  have h: "\<forall>e\<in>set edges_kruskal. start e \<in> set nodes_kruskal \<and> end' e \<in> set nodes_kruskal"
    by (simp add: edges_kruskal_def nodes_kruskal_def)
  from kruskal_mst_total[OF h] show ?thesis .
qed

end
